theory Spec2Isabelle
  imports Complex_Main "HOL-Library.Log_Nat"
begin

section \<open>gifscii: GIF to ASCII terminal animation (ascii.py)\<close>

text \<open>
  A shallow embedding of \<^verbatim>\<open>ascii.py\<close>. Python integers are \<open>int\<close>, strings are
  \<open>string\<close>, every exception the code can raise is a value of \<open>py_error\<close>, and every
  call of \<^verbatim>\<open>sys.exit\<close> is a value of the result type.
\<close>

subsection \<open>Python errors and sequence indexing\<close>

datatype py_error =
  ZeroDivisionError | OverflowError | ValueError | IndexError | KeyboardInterrupt

text \<open>Sequencing of statements that may raise: the first exception ends the computation.\<close>

definition and_then :: "'e + 'a \<Rightarrow> ('a \<Rightarrow> 'e + 'b) \<Rightarrow> 'e + 'b" where
  "and_then r f = (case r of Inl e \<Rightarrow> Inl e | Inr v \<Rightarrow> f v)"

fun map_err :: "('a \<Rightarrow> 'e + 'b) \<Rightarrow> 'a list \<Rightarrow> 'e + 'b list" where
  "map_err f [] = Inr []"
| "map_err f (x # xs) =
     and_then (f x) (\<lambda>v. and_then (map_err f xs) (\<lambda>vs. Inr (v # vs)))"

text \<open>Subscripting a Python sequence with \<^verbatim>\<open>s[i]\<close>: an index below zero is taken
  relative to the end of the sequence, and a position outside the sequence raises.\<close>

definition py_getitem :: "'a list \<Rightarrow> int \<Rightarrow> py_error + 'a" where
  "py_getitem s i =
     (if i < - int (length s) \<or> int (length s) \<le> i then Inl IndexError
      else if i < 0 then Inr (s ! nat (int (length s) + i))
      else Inr (s ! nat i))"

text \<open>\<^verbatim>\<open>range(n)\<close> is empty for \<open>n \<le> 0\<close>.\<close>

definition py_range :: "int \<Rightarrow> int list" where
  "py_range n = map int [0..<nat n]"

text \<open>\<^verbatim>\<open>sep.join(xs)\<close>.\<close>

fun join :: "'a list \<Rightarrow> 'a list list \<Rightarrow> 'a list" where
  "join sep [] = []"
| "join sep [x] = x"
| "join sep (x # y # ys) = x @ sep @ join sep (y # ys)"

subsection \<open>Python floats\<close>

text \<open>
  A Python \<^verbatim>\<open>float\<close> is an IEEE 754 binary64 value. The finite ones are modelled by the
  rational number they denote, so that every operation is the exact rational operation
  followed by rounding to the nearest representable value, ties to even (\<open>fl\<close>). The two
  zeros are identified: the code never divides by a zero without raising, and nothing
  else it does tells them apart.

  \<open>rhe\<close> rounds a rational to the nearest integer, ties to even; \<open>ilog2 x\<close> is the
  binary exponent \<open>\<lfloor>log\<^sub>2 x\<rfloor>\<close> of a positive rational; \<open>bexp\<close> clamps it at the exponent
  of the subnormal numbers, and one unit in the last place is \<open>2 powi (bexp x - 52)\<close>.
\<close>

definition rhe :: "rat \<Rightarrow> int" where
  "rhe q = (let f = \<lfloor>q\<rfloor>; d = q - of_int f
            in if d < 1/2 then f else if 1/2 < d then f + 1
               else if even f then f else f + 1)"

definition ilog2 :: "rat \<Rightarrow> int" where
  "ilog2 x = (case quotient_of x of (p, q) \<Rightarrow>
                let e = bitlen p - bitlen q in if 2 powi e \<le> x then e else e - 1)"

definition bexp :: "rat \<Rightarrow> int" where
  "bexp x = max (ilog2 \<bar>x\<bar>) (- 1022)"

definition fl :: "rat \<Rightarrow> rat" where
  "fl x = (if x = 0 then 0
           else of_int (rhe (x / 2 powi (bexp x - 52))) * 2 powi (bexp x - 52))"

datatype pyfloat = Fin rat | PInf | NInf | NaN

text \<open>Rounding a rational result into the format: a magnitude that rounds to \<open>2 ^ 1024\<close>
  or beyond overflows to an infinity.\<close>

definition to_double :: "rat \<Rightarrow> pyfloat" where
  "to_double x =
     (if 2 ^ 1024 \<le> fl x then PInf else if fl x \<le> - (2 ^ 1024) then NInf else Fin (fl x))"

text \<open>\<^verbatim>\<open>x * y\<close> on floats: never raises, overflows to an infinity.\<close>

fun float_mul :: "pyfloat \<Rightarrow> pyfloat \<Rightarrow> pyfloat" where
  "float_mul NaN y = NaN"
| "float_mul x NaN = NaN"
| "float_mul (Fin a) (Fin b) = to_double (a * b)"
| "float_mul (Fin a) PInf = (if a = 0 then NaN else if 0 < a then PInf else NInf)"
| "float_mul (Fin a) NInf = (if a = 0 then NaN else if 0 < a then NInf else PInf)"
| "float_mul PInf (Fin b) = (if b = 0 then NaN else if 0 < b then PInf else NInf)"
| "float_mul NInf (Fin b) = (if b = 0 then NaN else if 0 < b then NInf else PInf)"
| "float_mul PInf PInf = PInf"
| "float_mul PInf NInf = NInf"
| "float_mul NInf PInf = NInf"
| "float_mul NInf NInf = PInf"

text \<open>\<^verbatim>\<open>x / y\<close> on floats: a zero divisor raises whatever the dividend is.\<close>

fun float_truediv :: "pyfloat \<Rightarrow> pyfloat \<Rightarrow> py_error + pyfloat" where
  "float_truediv x (Fin b) =
     (if b = 0 then Inl ZeroDivisionError
      else Inr (case x of
                  Fin a \<Rightarrow> to_double (a / b)
                | PInf \<Rightarrow> if 0 < b then PInf else NInf
                | NInf \<Rightarrow> if 0 < b then NInf else PInf
                | NaN \<Rightarrow> NaN))"
| "float_truediv x NaN = Inr NaN"
| "float_truediv (Fin a) y = Inr (Fin 0)"
| "float_truediv x y = Inr NaN"

text \<open>\<^verbatim>\<open>x > y\<close> on floats: false as soon as one side is a NaN.\<close>

fun float_gt :: "pyfloat \<Rightarrow> pyfloat \<Rightarrow> bool" where
  "float_gt NaN y = False"
| "float_gt x NaN = False"
| "float_gt (Fin a) (Fin b) = (b < a)"
| "float_gt PInf PInf = False"
| "float_gt PInf y = True"
| "float_gt x PInf = False"
| "float_gt NInf y = False"
| "float_gt x NInf = True"

text \<open>The builtin \<^verbatim>\<open>max(a, b)\<close>: the first argument stays unless the second is greater.\<close>

definition py_max :: "pyfloat \<Rightarrow> pyfloat \<Rightarrow> pyfloat" where
  "py_max a b = (if float_gt b a then b else a)"

text \<open>\<^verbatim>\<open>int(x)\<close> on a float truncates toward zero and raises on an infinity or a NaN.\<close>

definition py_trunc :: "rat \<Rightarrow> int" where
  "py_trunc a = (if 0 \<le> a then \<lfloor>a\<rfloor> else \<lceil>a\<rceil>)"

fun float_to_int :: "pyfloat \<Rightarrow> py_error + int" where
  "float_to_int (Fin a) = Inr (py_trunc a)"
| "float_to_int NaN = Inl ValueError"
| "float_to_int x = Inl OverflowError"

text \<open>An \<^verbatim>\<open>int\<close> operand of a float operation is converted first, correctly rounded;
  a value too large for the format raises.\<close>

definition int_to_float :: "int \<Rightarrow> py_error + pyfloat" where
  "int_to_float n =
     (case to_double (of_int n) of Fin y \<Rightarrow> Inr (Fin y) | _ \<Rightarrow> Inl OverflowError)"

text \<open>\<^verbatim>\<open>a / b\<close> on two ints: the correctly rounded quotient.\<close>

definition int_truediv :: "int \<Rightarrow> int \<Rightarrow> py_error + pyfloat" where
  "int_truediv a b =
     (if b = 0 then Inl ZeroDivisionError
      else case to_double (of_int a / of_int b) of
             Fin y \<Rightarrow> Inr (Fin y) | _ \<Rightarrow> Inl OverflowError)"

subsection \<open>Fitting the character grid to the terminal (image_to_ascii, lines 25-38)\<close>

text \<open>
  The arguments are \<^verbatim>\<open>image.width\<close>, \<^verbatim>\<open>image.height\<close>, \<^verbatim>\<open>max_width\<close> and
  \<^verbatim>\<open>max_height\<close>; the result is the pair \<^verbatim>\<open>(width, height)\<close> handed to
  \<^verbatim>\<open>image.resize\<close>. The statements are evaluated in the order of the source, so the
  first of them that raises decides the exception. The literals \<^verbatim>\<open>2\<close> and \<^verbatim>\<open>0.5\<close> are
  exact as floats.
\<close>

definition image_to_ascii_dims :: "int \<Rightarrow> int \<Rightarrow> int \<Rightarrow> int \<Rightarrow> py_error + int \<times> int" where
  "image_to_ascii_dims image_width image_height max_width max_height =
     and_then (int_truediv image_width image_height) (\<lambda>aspect_ratio.
     and_then (int_to_float max_height) (\<lambda>mh.
     and_then (float_to_int (float_mul (float_mul mh aspect_ratio) (Fin 2))) (\<lambda>width_by_height.
     and_then (int_to_float max_width) (\<lambda>mw.
     and_then (float_truediv mw aspect_ratio) (\<lambda>q.
     and_then (float_to_int (float_mul q (Fin (1/2)))) (\<lambda>height_by_width.
     Inr (if width_by_height \<le> max_width then (width_by_height, max_height)
          else (max_width, height_by_width))))))))"

text \<open>
  The dimension negotiator as the specification words it (section 4.1), read as arithmetic
  on exact numbers: the aspect ratio, the two candidate sizes taken with \<open>floor\<close>, and the
  choice between them.
\<close>

definition negotiate :: "int \<Rightarrow> int \<Rightarrow> int \<Rightarrow> int \<Rightarrow> int \<times> int" where
  "negotiate sourceWidth sourceHeight maxWidth maxHeight =
     (let aspect = (of_int sourceWidth / of_int sourceHeight :: rat);
          heightLimitedWidth = \<lfloor>of_int maxHeight * aspect * 2\<rfloor>;
          widthLimitedHeight = \<lfloor>of_int maxWidth / aspect * (1/2)\<rfloor>
      in if heightLimitedWidth \<le> maxWidth then (heightLimitedWidth, maxHeight)
         else (maxWidth, widthLimitedHeight))"

subsection \<open>The glyph quantizer (image_to_ascii, lines 22 and 53-54)\<close>

definition ascii_chars :: string where
  "ascii_chars = ''@%#*+=-:. ''"

text \<open>\<^verbatim>\<open>char_index = min(len(ascii_chars) - 1, pixel * len(ascii_chars) // 256)\<close>;
  Python's \<^verbatim>\<open>//\<close> is floor division, as \<open>div\<close> on \<open>int\<close> is.\<close>

definition char_index :: "int \<Rightarrow> int" where
  "char_index pixel =
     min (int (length ascii_chars) - 1) (pixel * int (length ascii_chars) div 256)"

definition pixel_char :: "int \<Rightarrow> py_error + char" where
  "pixel_char pixel = py_getitem ascii_chars (char_index pixel)"

subsection \<open>Rasterizing one frame (image_to_ascii)\<close>

text \<open>
  A Pillow image exposes \<^verbatim>\<open>width\<close> and \<^verbatim>\<open>height\<close>; its pixel data is opaque here.
  Pillow is not part of the repository, so \<^verbatim>\<open>image.resize((width, height))\<close> followed by
  \<^verbatim>\<open>image.convert('L')\<close> is a parameter \<open>resize_L\<close> of the model: it may raise, and
  otherwise yields the accessor \<^verbatim>\<open>getpixel((x, y))\<close> of the resized grayscale image.
\<close>

record 'a image =
  width :: int
  height :: int
  bitmap :: 'a

type_synonym 'a resampler = "'a image \<Rightarrow> int \<Rightarrow> int \<Rightarrow> py_error + (int \<Rightarrow> int \<Rightarrow> int)"

definition image_to_ascii :: "'a resampler \<Rightarrow> 'a image \<Rightarrow> int \<Rightarrow> int \<Rightarrow> py_error + string" where
  "image_to_ascii resize_L img max_width max_height =
     and_then (image_to_ascii_dims (width img) (height img) max_width max_height) (\<lambda>(w, h).
     and_then (resize_L img w h) (\<lambda>getpixel.
     and_then (map_err (\<lambda>y. map_err (\<lambda>x. pixel_char (getpixel x y)) (py_range w)) (py_range h))
       (\<lambda>ascii_art.
     Inr (join [CHR 0x0A] ascii_art))))"

text \<open>
  One behaviour of Pillow, for concrete runs on a frame that is uniformly of luminance
  \<open>v\<close>: \<^verbatim>\<open>resize\<close> refuses a size with a component below 1 with ValueError, and otherwise
  the resized grayscale frame is uniformly \<open>v\<close> again.
\<close>

definition pillow_uniform :: "int \<Rightarrow> 'a image \<Rightarrow> int \<Rightarrow> int \<Rightarrow> py_error + (int \<Rightarrow> int \<Rightarrow> int)" where
  "pillow_uniform v img w h = (if w < 1 \<or> h < 1 then Inl ValueError else Inr (\<lambda>x y. v))"

subsection \<open>What the program writes and does\<close>

text \<open>One constructor for each \<^verbatim>\<open>print\<close> statement of the source, for \<^verbatim>\<open>clear_screen()\<close>
  and for a call of \<^verbatim>\<open>time.sleep\<close>. Writing to the terminal is taken to succeed.\<close>

datatype event =
    Print_error_not_found
  | Print_warning_format
  | Print_error_width
  | Print_loading
  | Print_terminal_size int int
  | Print_max_dimensions int int
  | Print_error_reading
  | Print_found nat
  | Print_converting
  | Print_progress nat nat
  | Print_starting
  | Sleep pyfloat
  | Clear_screen
  | Print_cursor_home
  | Print_frame string
  | Print_stopped

text \<open>How a run ends: \<^verbatim>\<open>sys.exit(code)\<close>, or an exception nobody catches.\<close>

datatype outcome = Exited int | Uncaught py_error

text \<open>
  \<^verbatim>\<open>time.sleep\<close> belongs to the Python library, not to the repository: what it does with
  an interval is a parameter \<open>time_sleep\<close> of the model, \<open>None\<close> for a normal return and
  the exception otherwise.
\<close>

type_synonym sleeper = "pyfloat \<Rightarrow> py_error option"


subsection \<open>Frame extraction (extract_gif_frames)\<close>

text \<open>
  The decoder is an external collaborator: it hands over the frames in order, each already
  converted to RGB, with the \<^verbatim>\<open>duration\<close> entry of its \<^verbatim>\<open>info\<close> dictionary in
  milliseconds when there is one. \<open>None\<close> for the whole input stands for any exception
  while opening or decoding.
\<close>

definition frame_duration :: "int option \<Rightarrow> py_error + pyfloat" where
  "frame_duration info_duration =
     and_then (int_to_float (case info_duration of None \<Rightarrow> 100 | Some d \<Rightarrow> d))
       (\<lambda>duration. float_truediv duration (Fin 1000))"

fun extract_loop ::
  "('a image \<times> int option) list \<Rightarrow> 'a image list \<Rightarrow> pyfloat list
     \<Rightarrow> py_error + 'a image list \<times> pyfloat list" where
  "extract_loop [] frames durations = Inr (frames, durations)"
| "extract_loop ((rgb_frame, info_duration) # rest) frames durations =
     and_then (frame_duration info_duration)
       (\<lambda>seconds. extract_loop rest (frames @ [rgb_frame]) (durations @ [seconds]))"

text \<open>Every exception is caught, reported and turned into \<^verbatim>\<open>sys.exit(1)\<close>.\<close>

definition extract_gif_frames ::
  "('a image \<times> int option) list option \<Rightarrow> event list \<times> (int + 'a image list \<times> pyfloat list)" where
  "extract_gif_frames opened =
     (case opened of
        None \<Rightarrow> ([Print_error_reading], Inl 1)
      | Some raw \<Rightarrow>
          (case extract_loop raw [] [] of
             Inl e \<Rightarrow> ([Print_error_reading], Inl 1)
           | Inr r \<Rightarrow> ([], Inr r)))"

subsection \<open>Playback (play_ascii_animation)\<close>

text \<open>\<^verbatim>\<open>sleep_time = max(0.03, duration * speed)\<close>; the literal denotes the nearest float.\<close>

definition sleep_time :: "pyfloat \<Rightarrow> pyfloat \<Rightarrow> pyfloat" where
  "sleep_time duration speed = py_max (to_double (3/100)) (float_mul duration speed)"

text \<open>The conversion loop before playback: an exception of \<open>image_to_ascii\<close> is not caught.\<close>

fun convert_frames ::
  "'a resampler \<Rightarrow> int \<Rightarrow> int \<Rightarrow> nat \<Rightarrow> nat \<Rightarrow> 'a image list
     \<Rightarrow> event list \<times> (py_error + string list)" where
  "convert_frames resize_L max_width max_height n_frames i [] = ([], Inr [])"
| "convert_frames resize_L max_width max_height n_frames i (frame # frames) =
     (case image_to_ascii resize_L frame max_width max_height of
        Inl e \<Rightarrow> ([], Inl e)
      | Inr ascii_frame \<Rightarrow>
          (case convert_frames resize_L max_width max_height n_frames (i + 1) frames of
             (evs, r) \<Rightarrow>
               (Print_progress (i + 1) n_frames # evs,
                case r of Inl e \<Rightarrow> Inl e | Inr ascii_frames \<Rightarrow> Inr (ascii_frame # ascii_frames))))"

text \<open>The body of the \<^verbatim>\<open>for\<close> loop: what is written for one frame, the call of
  \<^verbatim>\<open>time.sleep\<close>, and the new \<^verbatim>\<open>frame_count\<close> once that call has returned.\<close>

definition show_frame :: "pyfloat \<Rightarrow> nat \<Rightarrow> string \<times> pyfloat \<Rightarrow> event list \<times> nat" where
  "show_frame speed frame_count p =
     ([if frame_count = 0 then Clear_screen else Print_cursor_home,
       Print_frame (fst p),
       Sleep (sleep_time (snd p) speed)],
      frame_count + 1)"




text \<open>
  The same loops with the exceptions of \<^verbatim>\<open>time.sleep\<close>: the \<^verbatim>\<open>for\<close> loop is left at
  the first call that raises, after the events of that frame, and so is \<^verbatim>\<open>while True\<close>.
\<close>

fun run_pass ::
  "sleeper \<Rightarrow> pyfloat \<Rightarrow> nat \<Rightarrow> (string \<times> pyfloat) list \<Rightarrow> event list \<times> (py_error + nat)" where
  "run_pass time_sleep speed frame_count [] = ([], Inr frame_count)"
| "run_pass time_sleep speed frame_count (p # ps) =
     (case show_frame speed frame_count p of
        (evs, frame_count') \<Rightarrow>
          (case time_sleep (sleep_time (snd p) speed) of
             Some e \<Rightarrow> (evs, Inl e)
           | None \<Rightarrow>
               (case run_pass time_sleep speed frame_count' ps of
                  (evs', r) \<Rightarrow> (evs @ evs', r))))"

fun run_loop ::
  "nat \<Rightarrow> sleeper \<Rightarrow> pyfloat \<Rightarrow> nat \<Rightarrow> (string \<times> pyfloat) list \<Rightarrow> event list \<times> (py_error + nat)" where
  "run_loop 0 time_sleep speed frame_count pairs = ([], Inr frame_count)"
| "run_loop (Suc n) time_sleep speed frame_count pairs =
     (case run_pass time_sleep speed frame_count pairs of
        (evs, Inl e) \<Rightarrow> (evs, Inl e)
      | (evs, Inr frame_count') \<Rightarrow>
          (case run_loop n time_sleep speed frame_count' pairs of
             (evs', r) \<Rightarrow> (evs @ evs', r)))"


text \<open>
  Ctrl+C raises KeyboardInterrupt at a moment the user chooses: \<open>Before_try k\<close> is outside
  the \<^verbatim>\<open>try\<close> block, after the first \<open>k\<close> events of \<open>play_ascii_animation\<close> (at the
  latest during \<^verbatim>\<open>time.sleep(1)\<close>); \<open>In_try k\<close> is inside it, after \<open>k\<close> events of the
  loop. It comes before whatever the program would do next, also before an exception that
  would be raised next.
\<close>

datatype interrupt = No_interrupt | Before_try nat | In_try nat

text \<open>
  The \<^verbatim>\<open>try\<close> block with its handler. Without Ctrl+C the result describes the first \<open>n\<close>
  iterations of \<^verbatim>\<open>while True\<close>, with outcome \<open>None\<close> when the loop is still running
  after them. With an empty frame list the loop spins without writing anything.
\<close>

definition try_block ::
  "sleeper \<Rightarrow> pyfloat \<Rightarrow> (string \<times> pyfloat) list \<Rightarrow> interrupt \<Rightarrow> nat \<Rightarrow> event list \<times> outcome option" where
  "try_block time_sleep speed pairs ctrl_c n =
     (case ctrl_c of
        In_try k \<Rightarrow>
          (case run_loop k time_sleep speed 0 pairs of
             (evs, r) \<Rightarrow>
               if k \<le> length evs then (take k evs @ [Print_stopped], Some (Exited 0))
               else (case r of
                       Inl e \<Rightarrow> (evs, Some (Uncaught e))
                     | Inr frame_count \<Rightarrow> (evs @ [Print_stopped], Some (Exited 0))))
      | _ \<Rightarrow>
          (case run_loop n time_sleep speed 0 pairs of
             (evs, Inl e) \<Rightarrow> (evs, Some (Uncaught e))
           | (evs, Inr frame_count) \<Rightarrow> (evs, None)))"

text \<open>The statements before the \<^verbatim>\<open>try\<close> block end with exception \<open>e\<close> after the events
  \<open>evs\<close>, unless Ctrl+C comes first.\<close>

definition raise_unless_interrupted ::
  "event list \<Rightarrow> py_error \<Rightarrow> interrupt \<Rightarrow> event list \<times> outcome option" where
  "raise_unless_interrupted evs e ctrl_c =
     (case ctrl_c of
        Before_try k \<Rightarrow>
          if k \<le> length evs then (take k evs, Some (Uncaught KeyboardInterrupt))
          else (evs, Some (Uncaught e))
      | _ \<Rightarrow> (evs, Some (Uncaught e)))"

definition play_ascii_animation ::
  "'a resampler \<Rightarrow> sleeper \<Rightarrow> 'a image list \<Rightarrow> pyfloat list \<Rightarrow> int \<Rightarrow> int \<Rightarrow> pyfloat
     \<Rightarrow> interrupt \<Rightarrow> nat \<Rightarrow> event list \<times> outcome option" where
  "play_ascii_animation resize_L time_sleep frames durations max_width max_height speed ctrl_c n =
     (case convert_frames resize_L max_width max_height (length frames) 0 frames of
        (evs, Inl e) \<Rightarrow> raise_unless_interrupted (Print_converting # evs) e ctrl_c
      | (evs, Inr ascii_frames) \<Rightarrow>
          (let before = Print_converting # evs @ [Print_starting, Sleep (Fin 1)]
           in case time_sleep (Fin 1) of
                Some e \<Rightarrow> raise_unless_interrupted before e ctrl_c
              | None \<Rightarrow>
                  (case ctrl_c of
                     Before_try k \<Rightarrow> (take k before, Some (Uncaught KeyboardInterrupt))
                   | _ \<Rightarrow>
                       (case try_block time_sleep speed (zip ascii_frames durations) ctrl_c n of
                          (evs', out) \<Rightarrow> (before @ evs', out)))))"

subsection \<open>The command line (main)\<close>

text \<open>The parsed arguments: \<^verbatim>\<open>args.gif_file\<close>, \<^verbatim>\<open>args.width\<close> (\<^verbatim>\<open>None\<close> when absent) and
  \<^verbatim>\<open>args.speed\<close>.\<close>

datatype args = Args (args_gif_file: string) (args_width: "int option") (args_speed: pyfloat)

text \<open>What the surroundings answer: whether the path exists, the terminal size (\<open>None\<close>
  when the query raises AttributeError or OSError) and the decoder's result.\<close>

record 'a env =
  path_exists :: bool
  terminal :: "(int \<times> int) option"
  opened :: "('a image \<times> int option) list option"

definition get_terminal_size :: "(int \<times> int) option \<Rightarrow> int \<times> int" where
  "get_terminal_size sz = (case sz of Some (columns, lines) \<Rightarrow> (columns, lines) | None \<Rightarrow> (80, 24))"

text \<open>\<^verbatim>\<open>str.lower\<close> on the ASCII letters (an upper-case letter gets the bit of value 32
  set) and \<^verbatim>\<open>str.endswith\<close> with a tuple of suffixes.\<close>

definition lower :: "string \<Rightarrow> string" where
  "lower s = map (\<lambda>c. if 65 \<le> (of_char c :: nat) \<and> (of_char c :: nat) \<le> 90
                       then (case c of Char b0 b1 b2 b3 b4 b5 b6 b7 \<Rightarrow>
                               Char b0 b1 b2 b3 b4 True b6 b7)
                       else c) s"

definition endswith :: "string \<Rightarrow> string list \<Rightarrow> bool" where
  "endswith s suffixes =
     list_ex (\<lambda>suf. length suf \<le> length s \<and> drop (length s - length suf) s = suf) suffixes"

text \<open>The truth value of \<^verbatim>\<open>args.width\<close> in \<^verbatim>\<open>if args.width:\<close>.\<close>

definition truthy :: "int option \<Rightarrow> bool" where
  "truthy v = (case v of None \<Rightarrow> False | Some n \<Rightarrow> n \<noteq> 0)"

text \<open>Either the program has exited, or \<open>play_ascii_animation\<close> is called with these
  arguments.\<close>

datatype 'a main_result =
    Exit "event list" int
  | Play "event list" "'a image list" "pyfloat list" int int pyfloat

definition load_gif :: "event list \<Rightarrow> int \<Rightarrow> int \<Rightarrow> int \<Rightarrow> int \<Rightarrow> args \<Rightarrow> 'a env \<Rightarrow> 'a main_result" where
  "load_gif evs terminal_width terminal_height max_width max_height args env =
     (let evs1 = evs @ [Print_loading, Print_terminal_size terminal_width terminal_height,
                        Print_max_dimensions max_width max_height]
      in case extract_gif_frames (opened env) of
           (evs2, Inl code) \<Rightarrow> Exit (evs1 @ evs2) code
         | (evs2, Inr (frames, durations)) \<Rightarrow>
             Play (evs1 @ evs2 @ [Print_found (length frames)])
               frames durations max_width max_height (args_speed args))"

definition main :: "args \<Rightarrow> 'a env \<Rightarrow> 'a main_result" where
  "main args env =
     (if \<not> path_exists env then Exit [Print_error_not_found] 1
      else
        let warning =
              (if \<not> endswith (lower (args_gif_file args)) [''.gif'', ''.png'', ''.jpg'', ''.jpeg'']
               then [Print_warning_format] else [])
        in case get_terminal_size (terminal env) of
             (terminal_width, terminal_height) \<Rightarrow>
               let max_height = terminal_height - 4
               in if truthy (args_width args)
                  then if the (args_width args) \<le> 0
                       then Exit (warning @ [Print_error_width]) 1
                       else load_gif warning terminal_width terminal_height
                              (the (args_width args)) max_height args env
                  else load_gif warning terminal_width terminal_height
                         (min (terminal_width - 2) 120) max_height args env)"

section \<open>Properties\<close>

subsection \<open>Binary exponents\<close>

lemma powi2_pos: "0 < (2::rat) powi e"
  by (simp add: zero_less_power_int)

lemma powi2_add: "(2::rat) powi (a + b) = 2 powi a * 2 powi b"
  by (simp add: power_int_add)

lemma powi2_diff: "(2::rat) powi (a - b) = 2 powi a / 2 powi b"
  by (simp add: power_int_diff)

lemma powi2_mono: "a \<le> b \<Longrightarrow> (2::rat) powi a \<le> 2 powi b"
  by (simp add: power_int_increasing)

lemma powi2_less_imp: "(2::rat) powi a < 2 powi b \<Longrightarrow> a < b"
  using powi2_mono [of b a] by (cases "a < b") auto

lemma powi2_nat_mult: "of_int (2 ^ n) * (2::rat) powi e = 2 powi (e + int n)"
  by (simp add: powi2_add)

lemma bitlen_powi:
  assumes "0 < p"
  shows "(2::rat) powi (bitlen p - 1) \<le> of_int p \<and> of_int p < (2::rat) powi bitlen p"
proof -
  have b: "2 ^ nat (bitlen p - 1) \<le> p \<and> p < 2 ^ nat (bitlen p)"
    using assms by (rule bitlen_bounds)
  have ge1: "1 \<le> bitlen p"
    using assms bitlen_eq_zero_iff [of p] bitlen_nonneg [of p] by linarith
  have "(of_int (2 ^ nat (bitlen p - 1)) :: rat) \<le> of_int p"
    using b by (simp only: of_int_le_iff)
  moreover have "(of_int p :: rat) < of_int (2 ^ nat (bitlen p))"
    using b by (simp only: of_int_less_iff)
  ultimately show ?thesis
    using ge1 by (simp add: power_int_def)
qed

lemma ilog2_bounds:
  assumes "0 < x"
  shows "2 powi (ilog2 x) \<le> x \<and> x < 2 powi (ilog2 x + 1)"
proof -
  obtain p q where pq: "quotient_of x = (p, q)" by (cases "quotient_of x")
  have q: "0 < q" using pq by (rule quotient_of_denom_pos)
  have x: "x = of_int p / of_int q" using pq by (rule quotient_of_div)
  have p: "0 < p" using assms q x by (simp add: zero_less_divide_iff)
  define e where "e = bitlen p - bitlen q"
  note bp = bitlen_powi [OF p] and bq = bitlen_powi [OF q]
  have qpos: "(0::rat) < of_int q" using q by simp
  have "x < 2 powi bitlen p / 2 powi (bitlen q - 1)"
    unfolding x using bp bq p powi2_pos [of "bitlen q - 1"]
    by (intro frac_less) simp_all
  also have "\<dots> = 2 powi (e + 1)"
    by (simp add: e_def powi2_diff [symmetric] algebra_simps)
  finally have up: "x < 2 powi (e + 1)" .
  have "2 powi (bitlen p - 1) / 2 powi bitlen q < x"
    unfolding x using bp bq qpos powi2_pos [of "bitlen p - 1"]
    by (intro frac_less2) simp_all
  moreover have "2 powi (bitlen p - 1) / 2 powi bitlen q = (2::rat) powi (e - 1)"
    by (simp add: e_def powi2_diff [symmetric] algebra_simps)
  ultimately have lo: "2 powi (e - 1) < x" by simp
  have "ilog2 x = (if 2 powi e \<le> x then e else e - 1)"
    by (simp add: ilog2_def pq e_def Let_def)
  then show ?thesis using up lo by (auto simp: not_le)
qed

lemma ilog2_eqI:
  assumes "2 powi e \<le> x" and "x < 2 powi (e + 1)"
  shows "ilog2 x = e"
proof -
  have x: "0 < x" using assms(1) powi2_pos [of e] by linarith
  note b = ilog2_bounds [OF x]
  have "(2::rat) powi e < 2 powi (ilog2 x + 1)" using assms(1) b by linarith
  then have 1: "e < ilog2 x + 1" by (rule powi2_less_imp)
  have "(2::rat) powi (ilog2 x) < 2 powi (e + 1)" using assms(2) b by linarith
  then have 2: "ilog2 x < e + 1" by (rule powi2_less_imp)
  from 1 2 show ?thesis by simp
qed

lemma ilog2_mono:
  assumes x: "0 < x" and xy: "x \<le> y"
  shows "ilog2 x \<le> ilog2 y"
proof -
  have y: "0 < y" using x xy by simp
  have "(2::rat) powi (ilog2 x) < 2 powi (ilog2 y + 1)"
    using ilog2_bounds [OF x] ilog2_bounds [OF y] xy by linarith
  then have "ilog2 x < ilog2 y + 1" by (rule powi2_less_imp)
  then show ?thesis by simp
qed

subsection \<open>Rounding to the nearest integer, ties to even\<close>

lemma rhe_of_int: "rhe (of_int n) = n"
  by (simp add: rhe_def)

lemma rhe_cases:
  "rhe q = \<lfloor>q\<rfloor> \<and> q - of_int \<lfloor>q\<rfloor> \<le> 1/2 \<or> rhe q = \<lfloor>q\<rfloor> + 1 \<and> 1/2 \<le> q - of_int \<lfloor>q\<rfloor>"
  by (auto simp: rhe_def Let_def)

lemma rhe_mono:
  assumes "q \<le> r"
  shows "rhe q \<le> rhe r"
proof (cases "\<lfloor>q\<rfloor> = \<lfloor>r\<rfloor>")
  case True
  then show ?thesis using assms by (auto simp: rhe_def Let_def)
next
  case False
  then have "\<lfloor>q\<rfloor> + 1 \<le> \<lfloor>r\<rfloor>" using floor_mono [OF assms] by linarith
  then show ?thesis using rhe_cases [of q] rhe_cases [of r] by linarith
qed

lemma rhe_le: "q \<le> of_int n \<Longrightarrow> rhe q \<le> n"
  using rhe_mono [of q "of_int n"] by (simp add: rhe_of_int)

lemma rhe_ge: "of_int n \<le> q \<Longrightarrow> n \<le> rhe q"
  using rhe_mono [of "of_int n" q] by (simp add: rhe_of_int)

subsection \<open>Rounding to binary64: sign, monotonicity, exactness\<close>

lemma fl_pos: "0 < x \<Longrightarrow> fl x = of_int (rhe (x / 2 powi (bexp x - 52))) * 2 powi (bexp x - 52)"
  by (simp add: fl_def)

lemma fl_zero: "fl 0 = 0"
  by (simp add: fl_def)

lemma bexp_pos: "0 < x \<Longrightarrow> bexp x = max (ilog2 x) (- 1022)"
  by (simp add: bexp_def)

lemma bexp_upper:
  assumes x: "0 < x"
  shows "x < 2 powi (bexp x + 1)"
proof -
  have "x < 2 powi (ilog2 x + 1)" using ilog2_bounds [OF x] by simp
  also have "\<dots> \<le> 2 powi (bexp x + 1)" using x by (intro powi2_mono) (simp add: bexp_def)
  finally show ?thesis .
qed

lemma fl_nonneg:
  assumes "0 \<le> x"
  shows "0 \<le> fl x"
proof (cases "x = 0")
  case True
  then show ?thesis by (simp add: fl_zero)
next
  case False
  with assms have x: "0 < x" by simp
  have "0 \<le> x / 2 powi (bexp x - 52)" using x powi2_pos [of "bexp x - 52"] by simp
  then have "0 \<le> rhe (x / 2 powi (bexp x - 52))" using rhe_ge [of 0] by simp
  then show ?thesis using powi2_pos [of "bexp x - 52"] by (simp add: fl_pos [OF x])
qed

lemma ulp53: "of_int (2 ^ 53) * (2::rat) powi (e - 52) = 2 powi (e + 1)"
proof -
  have "e - 52 + int 53 = e + 1" by simp
  then show ?thesis unfolding powi2_nat_mult by (simp only:)
qed

lemma ulp52: "of_int (2 ^ 52) * (2::rat) powi (e - 52) = 2 powi e"
proof -
  have "e - 52 + int 52 = e" by simp
  then show ?thesis unfolding powi2_nat_mult by (simp only:)
qed

lemma fl_le_binade:
  assumes x: "0 < x"
  shows "fl x \<le> 2 powi (bexp x + 1)"
proof -
  let ?u = "(2::rat) powi (bexp x - 52)"
  have u: "0 < ?u" by (rule powi2_pos)
  have "x < of_int (2 ^ 53) * ?u"
    using bexp_upper [OF x] by (simp only: ulp53)
  then have "x / ?u \<le> of_int (2 ^ 53)"
    using u by (simp only: pos_divide_le_eq less_imp_le)
  then have "rhe (x / ?u) \<le> 2 ^ 53" by (rule rhe_le)
  then have "(of_int (rhe (x / ?u)) :: rat) \<le> of_int (2 ^ 53)" by (simp only: of_int_le_iff)
  then have "of_int (rhe (x / ?u)) * ?u \<le> of_int (2 ^ 53) * ?u"
    using u by (simp only: mult_le_cancel_right_pos)
  then show ?thesis by (simp only: fl_pos [OF x] ulp53)
qed

lemma fl_ge_binade:
  assumes x: "0 < x" and n: "- 1022 \<le> ilog2 x"
  shows "2 powi (bexp x) \<le> fl x"
proof -
  let ?u = "(2::rat) powi (bexp x - 52)"
  have u: "0 < ?u" by (rule powi2_pos)
  have b: "bexp x = ilog2 x" using x n by (simp add: bexp_def)
  have "2 powi (bexp x) \<le> x"
    using ilog2_bounds [OF x] by (simp only: b)
  then have "of_int (2 ^ 52) * ?u \<le> x" by (simp only: ulp52)
  then have "of_int (2 ^ 52) \<le> x / ?u"
    using u by (simp only: pos_le_divide_eq)
  then have "2 ^ 52 \<le> rhe (x / ?u)" by (rule rhe_ge)
  then have "(of_int (2 ^ 52) :: rat) \<le> of_int (rhe (x / ?u))" by (simp only: of_int_le_iff)
  then have "of_int (2 ^ 52) * ?u \<le> of_int (rhe (x / ?u)) * ?u"
    using u by (simp only: mult_le_cancel_right_pos)
  then show ?thesis by (simp only: fl_pos [OF x] ulp52)
qed

lemma fl_mono_pos:
  assumes x: "0 < x" and xy: "x \<le> y"
  shows "fl x \<le> fl y"
proof -
  have y: "0 < y" using x xy by simp
  have le: "bexp x \<le> bexp y"
    using ilog2_mono [OF x xy] x y by (simp add: bexp_def)
  show ?thesis
  proof (cases "bexp x = bexp y")
    case True
    let ?u = "(2::rat) powi (bexp y - 52)"
    have u: "0 < ?u" by (rule powi2_pos)
    have "x / ?u \<le> y / ?u" using xy u by (simp add: divide_right_mono)
    then have "rhe (x / ?u) \<le> rhe (y / ?u)" by (rule rhe_mono)
    then have "(of_int (rhe (x / ?u)) :: rat) \<le> of_int (rhe (y / ?u))"
      by (simp only: of_int_le_iff)
    then have "of_int (rhe (x / ?u)) * ?u \<le> of_int (rhe (y / ?u)) * ?u"
      using u by simp
    then show ?thesis by (simp add: fl_pos [OF x] fl_pos [OF y] True)
  next
    case False
    with le have lt: "bexp x + 1 \<le> bexp y" by simp
    then have "- 1022 < bexp y" by (simp add: bexp_def)
    then have n: "- 1022 \<le> ilog2 y" using y by (simp add: bexp_def)
    have "fl x \<le> 2 powi (bexp x + 1)" by (rule fl_le_binade [OF x])
    also have "\<dots> \<le> 2 powi (bexp y)" using lt by (rule powi2_mono)
    also have "\<dots> \<le> fl y" by (rule fl_ge_binade [OF y n])
    finally show ?thesis .
  qed
qed

lemma fl_mono: "0 \<le> x \<Longrightarrow> x \<le> y \<Longrightarrow> fl x \<le> fl y"
  using fl_mono_pos [of x y] fl_nonneg [of y] by (cases "x = 0") (simp_all add: fl_zero)

lemma fl_exact:
  assumes m: "0 < m" "m < 2 ^ 53" and k: "- 1074 \<le> k"
  shows "fl (of_int m * 2 powi k) = of_int m * 2 powi k"
proof -
  define x where "x = of_int m * (2::rat) powi k"
  define u where "u = (2::rat) powi (bexp x - 52)"
  have u: "0 < u" unfolding u_def by (rule powi2_pos)
  have x: "0 < x" using m powi2_pos [of k] by (simp add: x_def)
  have "(of_int m :: rat) < of_int (2 ^ 53)" using m by (simp only: of_int_less_iff)
  then have "x < of_int (2 ^ 53) * 2 powi k"
    unfolding x_def using powi2_pos [of k] by (simp only: mult_less_cancel_right_pos)
  then have up: "x < 2 powi (k + 53)" by (simp only: powi2_nat_mult of_nat_numeral)
  have "(2::rat) powi (ilog2 x) < 2 powi (k + 53)"
    using ilog2_bounds [OF x] up by linarith
  then have "ilog2 x < k + 53" by (rule powi2_less_imp)
  then have e: "bexp x \<le> k + 52" using k x by (simp add: bexp_def)
  define j where "j = nat (k + 52 - bexp x)"
  have kk: "k = (bexp x - 52) + int j" using e by (simp add: j_def)
  have "(2::rat) powi k = u * 2 ^ j"
    unfolding u_def by (subst kk, subst powi2_add) simp
  then have "x = of_int (m * 2 ^ j) * u" by (simp add: x_def)
  then have q: "x / u = of_int (m * 2 ^ j)" using u by simp
  have "fl x = of_int (rhe (x / u)) * u" unfolding u_def by (rule fl_pos [OF x])
  also have "\<dots> = of_int (m * 2 ^ j) * u" by (simp only: q rhe_of_int)
  also have "\<dots> = x / u * u" by (simp only: q)
  also have "\<dots> = x" using u by simp
  finally show ?thesis unfolding x_def .
qed

lemma fl_int: "0 \<le> n \<Longrightarrow> n < 2 ^ 53 \<Longrightarrow> fl (of_int n) = of_int n"
  using fl_exact [of n 0] by (cases "n = 0") (simp_all add: fl_zero)

lemma fl_half_int: "0 \<le> n \<Longrightarrow> n < 2 ^ 53 \<Longrightarrow> fl (of_int n / 2) = of_int n / 2"
  using fl_exact [of n "-1"] by (cases "n = 0") (simp_all add: fl_zero)

subsection \<open>The glyph quantizer\<close>

lemma length_ascii_chars: "length ascii_chars = 10"
  by (simp add: ascii_chars_def)

lemma char_index_eq: "char_index p = min 9 (p * 10 div 256)"
  by (simp add: char_index_def length_ascii_chars)

lemma char_index_mono: "p \<le> q \<Longrightarrow> char_index p \<le> char_index q"
proof -
  assume "p \<le> q"
  then have "p * 10 div 256 \<le> q * 10 div 256"
    by (intro zdiv_mono1) simp_all
  then show ?thesis
    by (simp add: char_index_eq min_le_iff_disj)
qed

lemma char_index_range: "0 \<le> p \<Longrightarrow> 0 \<le> char_index p \<and> char_index p \<le> 9"
  by (simp add: char_index_eq pos_imp_zdiv_nonneg_iff)

text \<open>
  Claim C2. For every sample in 0..255 the quantizer's index is
  \<open>min (rampLength - 1) (sample * rampLength div 256)\<close> with floor division over the
  ten-character ramp \<^verbatim>\<open>@%#*+=-:. \<close>; the index lies in 0..9, so the ramp lookup never
  raises, and the index is monotonic non-decreasing in the sample.
\<close>

theorem quantize_index_valid_monotone:
  assumes "0 \<le> s" and "s \<le> t" and "t \<le> 255"
  shows "ascii_chars = ''@%#*+=-:. '' \<and> length ascii_chars = 10
       \<and> char_index s = min (int (length ascii_chars) - 1) (s * int (length ascii_chars) div 256)
       \<and> 0 \<le> char_index s \<and> char_index s \<le> 9
       \<and> char_index s \<le> char_index t
       \<and> pixel_char s = Inr (ascii_chars ! nat (char_index s))"
proof -
  have r: "0 \<le> char_index s \<and> char_index s \<le> 9"
    using assms(1) by (rule char_index_range)
  have "pixel_char s = Inr (ascii_chars ! nat (char_index s))"
    using r by (simp add: pixel_char_def py_getitem_def length_ascii_chars)
  moreover have "char_index s \<le> char_index t"
    using assms(2) by (rule char_index_mono)
  ultimately show ?thesis
    using r by (simp add: char_index_def length_ascii_chars ascii_chars_def)
qed

theorem quantize_index_valid_monotone_witness:
  "(0::int) \<le> 100 \<and> (100::int) \<le> 255 \<and> char_index 100 = 3 \<and> char_index 100 \<le> char_index 255
     \<and> char_index 255 = 9 \<and> pixel_char 100 = Inr (CHR ''*'')"
  using quantize_index_valid_monotone [of 100 255]
  by (simp add: char_index_eq ascii_chars_def)

subsection \<open>Bounds carried through rounding\<close>

lemma fl_le_pow: "0 \<le> x \<Longrightarrow> x \<le> 2 powi k \<Longrightarrow> - 1074 \<le> k \<Longrightarrow> fl x \<le> 2 powi k"
  using fl_mono [of x "2 powi k"] fl_exact [of 1 k] by simp

lemma fl_ge_pow: "2 powi k \<le> x \<Longrightarrow> - 1074 \<le> k \<Longrightarrow> 2 powi k \<le> fl x"
  using fl_mono [of "2 powi k" x] fl_exact [of 1 k] powi2_pos [of k] by simp

lemma fl_le_half:
  assumes x: "0 \<le> x" and le: "x \<le> of_int n / 2" and n: "n < 2 ^ 53"
  shows "fl x \<le> of_int n / 2"
proof -
  have "(0::rat) \<le> of_int n" using x le by simp
  then have "0 \<le> n" by simp
  then show ?thesis using fl_mono [OF x le] fl_half_int [of n] n by simp
qed

lemma fl_ge_half: "0 \<le> n \<Longrightarrow> n < 2 ^ 53 \<Longrightarrow> of_int n / 2 \<le> x \<Longrightarrow> of_int n / 2 \<le> fl x"
  using fl_mono [of "of_int n / 2" x] fl_half_int [of n] by simp

lemma fl_le_int:
  assumes x: "0 \<le> x" and le: "x \<le> of_int n" and n: "n < 2 ^ 53"
  shows "fl x \<le> of_int n"
proof -
  have "(0::rat) \<le> of_int n" using x le by simp
  then have "0 \<le> n" by simp
  then show ?thesis using fl_mono [OF x le] fl_int [of n] n by simp
qed

lemma fl_ge_int: "0 \<le> n \<Longrightarrow> n < 2 ^ 53 \<Longrightarrow> of_int n \<le> x \<Longrightarrow> of_int n \<le> fl x"
  using fl_mono [of "of_int n" x] fl_int [of n] by simp

lemma fl_factor2:
  assumes "2 powi (- 1022) \<le> x"
  shows "x < 2 * fl x" and "fl x \<le> 2 * x"
proof -
  have x: "0 < x" using assms powi2_pos [of "- 1022"] by linarith
  have "ilog2 (2 powi (- 1022)) = - 1022"
    by (rule ilog2_eqI) (simp_all add: power_int_strict_increasing)
  then have n: "- 1022 \<le> ilog2 x"
    using ilog2_mono [OF powi2_pos assms] by simp
  then have b: "bexp x = ilog2 x" using x by (simp add: bexp_def)
  have two: "(2::rat) powi (ilog2 x + 1) = 2 * 2 powi (ilog2 x)"
    by (simp add: powi2_add)
  have "x < 2 * 2 powi (ilog2 x)" using ilog2_bounds [OF x] two by simp
  also have "\<dots> \<le> 2 * fl x" using fl_ge_binade [OF x n] b by simp
  finally show "x < 2 * fl x" .
  have "fl x \<le> 2 * 2 powi (ilog2 x)" using fl_le_binade [OF x] b two by simp
  also have "\<dots> \<le> 2 * x" using ilog2_bounds [OF x] by simp
  finally show "fl x \<le> 2 * x" .
qed

text \<open>Evaluating \<open>fl\<close> at a given argument: on a dyadic rational with a short numerator,
  and in general from the binary exponent and the rounded quotient.\<close>

lemma fl_dyadic:
  assumes "x = of_int m / 2 ^ k" and "0 < m" and "m < 2 ^ 53" and "k \<le> 1074"
  shows "fl x = x"
proof -
  have "x = of_int m * 2 powi (- int k)" by (simp add: assms(1) power_int_minus field_simps)
  then show ?thesis using fl_exact [of m "- int k"] assms by simp
qed

lemma fl_eval:
  assumes "2 powi e \<le> x" and "x < 2 powi (e + 1)" and "- 1022 \<le> e"
      and "rhe (x / 2 powi (e - 52)) = m"
  shows "fl x = of_int m * 2 powi (e - 52)"
proof -
  have x: "0 < x" using assms(1) powi2_pos [of e] by linarith
  have "ilog2 x = e" using assms(1,2) by (rule ilog2_eqI)
  then have "bexp x = e" using x assms(3) by (simp add: bexp_def)
  then show ?thesis using assms(4) by (simp add: fl_pos [OF x])
qed

lemma floor_rat_numeral: "\<lfloor>numeral a / numeral b :: rat\<rfloor> = numeral a div numeral b"
  by (metis floor_divide_of_int_eq of_int_numeral)

lemma to_double_fin:
  assumes "0 \<le> x" and "x \<le> 2 powi 1000"
  shows "to_double x = Fin (fl x)"
proof -
  have "fl x \<le> 2 powi 1000" using assms by (intro fl_le_pow) simp_all
  also have "(2::rat) powi 1000 < 2 powi 1024" by (simp add: power_int_strict_increasing)
  finally have "fl x < 2 ^ 1024" by (simp add: power_int_def)
  moreover have "0 \<le> fl x" using assms(1) by (rule fl_nonneg)
  ultimately show ?thesis by (simp add: to_double_def)
qed

lemma int_to_float_exact:
  assumes n: "0 \<le> n" "n < 2 ^ 52"
  shows "int_to_float n = Inr (Fin (of_int n))"
proof -
  have "(of_int n :: rat) \<le> of_int (2 ^ 52)" using n by (simp only: of_int_le_iff)
  also have "(of_int (2 ^ 52) :: rat) \<le> 2 powi 1000" by (simp add: power_int_def)
  finally have "to_double (of_int n) = Fin (fl (of_int n))" using n by (intro to_double_fin) simp_all
  moreover have "fl (of_int n) = of_int n" using n by (intro fl_int) simp_all
  ultimately show ?thesis by (simp add: int_to_float_def)
qed

subsection \<open>The character grid\<close>

lemma aspect_bounds:
  fixes sw sh :: int
  assumes sw: "0 < sw" "sw < 2 ^ 52" and sh: "0 < sh" "sh < 2 ^ 52"
  shows "2 powi (- 52) \<le> (of_int sw / of_int sh :: rat)"
    and "(of_int sw / of_int sh :: rat) \<le> 2 powi 52"
proof -
  have shp: "(0::rat) < of_int sh" using sh by simp
  have "sh \<le> 2 ^ 52 * sw" using sw sh by simp
  then have "(of_int sh :: rat) \<le> of_int (2 ^ 52 * sw)" by (simp only: of_int_le_iff)
  then show "2 powi (- 52) \<le> (of_int sw / of_int sh :: rat)"
    using shp by (simp add: power_int_def field_simps)
  have "sw \<le> 2 ^ 52 * sh" using sw sh by simp
  then have "(of_int sw :: rat) \<le> of_int (2 ^ 52 * sh)" by (simp only: of_int_le_iff)
  then show "(of_int sw / of_int sh :: rat) \<le> 2 powi 52"
    using shp by (simp add: power_int_def field_simps)
qed

text \<open>With all four arguments positive and below \<open>2 ^ 52\<close> no statement of the
  computation raises, every conversion from \<open>int\<close> is exact and \<open>int()\<close> is \<open>floor\<close>.\<close>

lemma dims_eq:
  fixes sw sh mw mh :: int
  assumes sw: "0 < sw" "sw < 2 ^ 52" and sh: "0 < sh" "sh < 2 ^ 52"
      and mw: "0 < mw" "mw < 2 ^ 52" and mh: "0 < mh" "mh < 2 ^ 52"
  shows "image_to_ascii_dims sw sh mw mh =
           Inr (if \<lfloor>fl (fl (of_int mh * fl (of_int sw / of_int sh)) * 2)\<rfloor> \<le> mw
                then (\<lfloor>fl (fl (of_int mh * fl (of_int sw / of_int sh)) * 2)\<rfloor>, mh)
                else (mw, \<lfloor>fl (fl (of_int mw / fl (of_int sw / of_int sh)) * (1/2))\<rfloor>))"
proof -
  define r :: rat where "r = of_int sw / of_int sh"
  define a where "a = fl r"
  note rb = aspect_bounds [OF sw sh, folded r_def]
  have r0: "0 < r" using rb(1) powi2_pos [of "- 52"] by linarith
  have a_lo: "2 powi (- 52) \<le> a" unfolding a_def using rb(1) by (intro fl_ge_pow) simp_all
  have a_hi: "a \<le> 2 powi 52" unfolding a_def using rb(2) r0 by (intro fl_le_pow) simp_all
  have a0: "0 < a" using a_lo powi2_pos [of "- 52"] by linarith
  have "r \<le> 2 powi 1000" using rb(2) powi2_mono [of 52 1000] by simp
  then have "to_double r = Fin a" unfolding a_def using r0 by (intro to_double_fin) simp_all
  then have 1: "int_truediv sw sh = Inr (Fin a)" using sh by (simp add: int_truediv_def r_def)
  have 2: "int_to_float mh = Inr (Fin (of_int mh))" using mh by (intro int_to_float_exact) simp_all
  have 3: "int_to_float mw = Inr (Fin (of_int mw))" using mw by (intro int_to_float_exact) simp_all
  have mhr: "(0::rat) < of_int mh" "(of_int mh :: rat) \<le> 2 powi 52"
    using mh by (simp_all add: power_int_def)
  have mwr: "(0::rat) < of_int mw" "(of_int mw :: rat) \<le> 2 powi 52"
    using mw by (simp_all add: power_int_def)
  \<comment> \<open>line 28\<close>
  define P where "P = fl (of_int mh * a)"
  have x1: "0 \<le> of_int mh * a" using mhr a0 by simp
  have "of_int mh * a \<le> 2 powi 52 * 2 powi 52" using mhr a_hi a0 by (intro mult_mono) simp_all
  then have x1_hi: "of_int mh * a \<le> 2 powi 104" by (simp add: powi2_add [symmetric])
  then have "of_int mh * a \<le> 2 powi 1000" using powi2_mono [of 104 1000] by simp
  then have 4: "to_double (of_int mh * a) = Fin P" unfolding P_def using x1 by (intro to_double_fin)
  have P0: "0 \<le> P" unfolding P_def using x1 by (rule fl_nonneg)
  have P_hi: "P \<le> 2 powi 104" unfolding P_def using x1 x1_hi by (intro fl_le_pow) simp_all
  have "P * 2 \<le> 2 powi 104 * 2 powi 1" using P_hi by simp
  then have "P * 2 \<le> 2 powi 105" by (simp add: powi2_add [symmetric])
  then have "P * 2 \<le> 2 powi 1000" using powi2_mono [of 105 1000] by simp
  then have 5: "to_double (P * 2) = Fin (fl (P * 2))" using P0 by (intro to_double_fin) simp_all
  have T0: "0 \<le> fl (P * 2)" using P0 by (intro fl_nonneg) simp
  \<comment> \<open>line 29\<close>
  define Q where "Q = fl (of_int mw / a)"
  have x2: "0 \<le> of_int mw / a" using mwr a0 by simp
  have "of_int mw / a \<le> 2 powi 52 / 2 powi (- 52)"
    using mwr a_lo a0 powi2_pos [of "- 52"] by (intro frac_le) simp_all
  then have x2_hi: "of_int mw / a \<le> 2 powi 104" by (simp add: powi2_diff [symmetric])
  then have "of_int mw / a \<le> 2 powi 1000" using powi2_mono [of 104 1000] by simp
  then have 6: "to_double (of_int mw / a) = Fin Q" unfolding Q_def using x2 by (intro to_double_fin)
  have Q0: "0 \<le> Q" unfolding Q_def using x2 by (rule fl_nonneg)
  have Q_hi: "Q \<le> 2 powi 104" unfolding Q_def using x2 x2_hi by (intro fl_le_pow) simp_all
  then have "Q * (1/2) \<le> 2 powi 1000" using powi2_mono [of 104 1000] Q0 by simp
  then have 7: "to_double (Q * (1/2)) = Fin (fl (Q * (1/2)))"
    using Q0 by (intro to_double_fin) simp_all
  have H0: "0 \<le> fl (Q * (1/2))" using Q0 by (intro fl_nonneg) simp
  have 8: "float_truediv (Fin (of_int mw)) (Fin a) = Inr (Fin Q)" using a0 6 by simp
  have s1: "float_mul (float_mul (Fin (of_int mh)) (Fin a)) (Fin 2) = Fin (fl (P * 2))"
    by (simp only: float_mul.simps 4 5)
  have s2: "float_to_int (Fin (fl (P * 2))) = Inr \<lfloor>fl (P * 2)\<rfloor>"
    using T0 by (simp add: py_trunc_def)
  have s3: "float_mul (Fin Q) (Fin (1/2)) = Fin (fl (Q * (1/2)))"
    by (simp only: float_mul.simps 7)
  have s4: "float_to_int (Fin (fl (Q * (1/2)))) = Inr \<lfloor>fl (Q * (1/2))\<rfloor>"
    using H0 by (simp add: py_trunc_def)
  have "image_to_ascii_dims sw sh mw mh =
          Inr (if \<lfloor>fl (P * 2)\<rfloor> \<le> mw then (\<lfloor>fl (P * 2)\<rfloor>, mh) else (mw, \<lfloor>fl (Q * (1/2))\<rfloor>))"
    unfolding image_to_ascii_dims_def
    by (simp only: 1 2 3 s1 s2 8 s3 s4 and_then_def sum.case)
  then show ?thesis by (simp only: P_def Q_def a_def r_def)
qed

lemma dims_height_limited:
  fixes sw sh mw mh :: int
  assumes "0 < sw" "sw < 2 ^ 52" "0 < sh" "sh < 2 ^ 52"
      and "0 < mw" "mw < 2 ^ 52" "0 < mh" "mh < 2 ^ 52"
      and "fl (of_int sw / of_int sh) = a" and "fl (of_int mh * a) = P" and "fl (P * 2) = T"
      and "\<lfloor>T\<rfloor> \<le> mw"
  shows "image_to_ascii_dims sw sh mw mh = Inr (\<lfloor>T\<rfloor>, mh)"
  using dims_eq [OF assms(1-8)] assms(9-12) by simp

lemma dims_width_limited:
  fixes sw sh mw mh :: int
  assumes "0 < sw" "sw < 2 ^ 52" "0 < sh" "sh < 2 ^ 52"
      and "0 < mw" "mw < 2 ^ 52" "0 < mh" "mh < 2 ^ 52"
      and "fl (of_int sw / of_int sh) = a" and "fl (of_int mh * a) = P" and "fl (P * 2) = T"
      and "mw < \<lfloor>T\<rfloor>" and "fl (of_int mw / a) = Q" and "fl (Q * (1/2)) = H"
  shows "image_to_ascii_dims sw sh mw mh = Inr (mw, \<lfloor>H\<rfloor>)"
  using dims_eq [OF assms(1-8)] assms(9-14) by simp

lemma dims_200_100: "image_to_ascii_dims 200 100 120 40 = Inr (120, 30)"
  using dims_width_limited [of 200 100 120 40 2 80 160 60 30]
    fl_int [of 2] fl_int [of 80] fl_int [of 160] fl_int [of 60] fl_int [of 30]
  by (simp add: floor_rat_numeral)

lemma grid_height_le:
  fixes mw mh :: int and a :: rat
  assumes a0: "0 < a" and mw: "0 < mw" "mw < 2 ^ 52" and mh: "0 < mh" "mh < 2 ^ 52"
      and els: "mw < \<lfloor>fl (fl (of_int mh * a) * 2)\<rfloor>"
  shows "\<lfloor>fl (fl (of_int mw / a) * (1/2))\<rfloor> \<le> mh"
proof (rule ccontr)
  define P where "P = fl (of_int mh * a)"
  define Q where "Q = fl (of_int mw / a)"
  define n where "n = 2 * mh + 1"
  have n: "0 \<le> n" "n < 2 ^ 53" using mh by (simp_all add: n_def)
  have nr: "(of_int n :: rat) = 2 * of_int mh + 1" by (simp add: n_def)
  have x2: "0 \<le> of_int mw / a" using mw a0 by simp
  have Q0: "0 \<le> Q" unfolding Q_def using x2 by (rule fl_nonneg)
  assume "\<not> \<lfloor>fl (fl (of_int mw / a) * (1/2))\<rfloor> \<le> mh"
  then have "mh + 1 \<le> \<lfloor>fl (Q * (1/2))\<rfloor>" by (simp add: Q_def)
  then have H: "of_int (mh + 1) \<le> fl (Q * (1/2))" by (simp only: le_floor_iff)
  have "\<not> Q * (1/2) \<le> of_int n / 2"
  proof
    assume "Q * (1/2) \<le> of_int n / 2"
    then have "fl (Q * (1/2)) \<le> of_int n / 2" using Q0 n by (intro fl_le_half) simp_all
    then show False using H nr by simp
  qed
  then have Qn: "of_int n < Q" by simp
  have "\<not> of_int mw / a \<le> of_int n"
  proof
    assume "of_int mw / a \<le> of_int n"
    then have "Q \<le> of_int n" unfolding Q_def using x2 n by (intro fl_le_int) simp_all
    then show False using Qn by simp
  qed
  then have "of_int n * a < of_int mw" using a0 by (simp add: pos_less_divide_eq not_le)
  then have "(2 * of_int mh + 1) * a < of_int mw" by (simp only: nr)
  then have "2 * (of_int mh * a) + a < of_int mw" by (simp add: algebra_simps)
  then have le: "of_int mh * a \<le> of_int mw / 2" using a0 by simp
  have x1: "0 \<le> of_int mh * a" using mh a0 by simp
  have "P \<le> of_int mw / 2" unfolding P_def using x1 le mw by (intro fl_le_half) simp_all
  moreover have "0 \<le> P" unfolding P_def using x1 by (rule fl_nonneg)
  ultimately have "fl (P * 2) \<le> of_int mw" using mw by (intro fl_le_int) simp_all
  then have "\<lfloor>fl (P * 2)\<rfloor> \<le> mw" by (simp add: floor_le_iff)
  then show False using els by (simp add: P_def)
qed

lemma grid_width_ge1:
  fixes mh :: int and r :: rat
  assumes r: "2 powi (- 52) \<le> r" and mh: "0 < mh" and c: "1 \<le> of_int mh * r"
  shows "1 \<le> \<lfloor>fl (fl (of_int mh * fl r) * 2)\<rfloor>"
proof -
  have "2 powi (- 1022) \<le> r" using r powi2_mono [of "- 1022" "- 52"] by simp
  then have "r < 2 * fl r" by (rule fl_factor2)
  then have "of_int mh * r < of_int mh * (2 * fl r)"
    using mh by (simp only: mult_less_cancel_left_pos of_int_0_less_iff)
  then have "of_int 1 / 2 \<le> of_int mh * fl r" using c by simp
  then have "of_int 1 / 2 \<le> fl (of_int mh * fl r)" by (intro fl_ge_half) simp_all
  then have "of_int 1 \<le> fl (of_int mh * fl r) * 2" by simp
  then have "of_int 1 \<le> fl (fl (of_int mh * fl r) * 2)" by (intro fl_ge_int) simp_all
  then show ?thesis by (simp only: le_floor_iff)
qed

lemma grid_height_ge1:
  fixes mw :: int and r :: rat
  assumes r: "2 powi (- 52) \<le> r" and c: "4 * r \<le> of_int mw"
  shows "1 \<le> \<lfloor>fl (fl (of_int mw / fl r) * (1/2))\<rfloor>"
proof -
  have r0: "0 < r" using r powi2_pos [of "- 52"] by linarith
  have n: "2 powi (- 1022) \<le> r" using r powi2_mono [of "- 1022" "- 52"] by simp
  have a0: "0 < fl r" using fl_factor2(1) [OF n] r0 by linarith
  have "fl r \<le> 2 * r" using n by (rule fl_factor2)
  then have "2 * fl r \<le> of_int mw" using c by linarith
  then have "of_int 2 \<le> of_int mw / fl r" using a0 by (simp add: pos_le_divide_eq)
  then have "of_int 2 \<le> fl (of_int mw / fl r)" by (intro fl_ge_int) simp_all
  then have "of_int 1 \<le> fl (of_int mw / fl r) * (1/2)" by simp
  then have "of_int 1 \<le> fl (fl (of_int mw / fl r) * (1/2))" by (intro fl_ge_int) simp_all
  then show ?thesis by (simp only: le_floor_iff)
qed

text \<open>
  Claim C1, as the code has it. For positive \<open>sourceWidth\<close>, \<open>sourceHeight\<close>,
  \<open>maxWidth\<close>, \<open>maxHeight\<close> (each below \<open>2 ^ 52\<close>, so that no conversion rounds or
  overflows) the computation raises nothing and returns \<open>(width, height)\<close> with
  \<open>0 \<le> width \<le> maxWidth\<close> and \<open>0 \<le> height \<le> maxHeight\<close>. Both are at least 1 when
  \<open>sourceHeight \<le> maxHeight * sourceWidth\<close> and \<open>4 * sourceWidth \<le> maxWidth * sourceHeight\<close>;
  for a more extreme aspect ratio one of them can be 0.
\<close>

theorem dims_within_bounds:
  fixes sw sh mw mh :: int
  assumes sw: "0 < sw" "sw < 2 ^ 52" and sh: "0 < sh" "sh < 2 ^ 52"
      and mw: "0 < mw" "mw < 2 ^ 52" and mh: "0 < mh" "mh < 2 ^ 52"
  shows "\<exists>w h. image_to_ascii_dims sw sh mw mh = Inr (w, h)
           \<and> 0 \<le> w \<and> w \<le> mw \<and> 0 \<le> h \<and> h \<le> mh
           \<and> (sh \<le> mh * sw \<and> 4 * sw \<le> mw * sh \<longrightarrow> 1 \<le> w \<and> 1 \<le> h)"
proof -
  define r :: rat where "r = of_int sw / of_int sh"
  define W where "W = \<lfloor>fl (fl (of_int mh * fl r) * 2)\<rfloor>"
  define H where "H = \<lfloor>fl (fl (of_int mw / fl r) * (1/2))\<rfloor>"
  have eq: "image_to_ascii_dims sw sh mw mh = Inr (if W \<le> mw then (W, mh) else (mw, H))"
    using dims_eq [OF assms] by (simp only: W_def H_def r_def)
  note rb = aspect_bounds [OF sw sh, folded r_def]
  have shp: "(0::rat) < of_int sh" using sh by simp
  have "2 powi (- 52) \<le> fl r" using rb(1) by (intro fl_ge_pow) simp_all
  then have a0: "0 < fl r" using powi2_pos [of "- 52"] by linarith
  have "0 \<le> fl (of_int mh * fl r)" using mh a0 by (intro fl_nonneg) simp
  then have "0 \<le> fl (fl (of_int mh * fl r) * 2)" by (intro fl_nonneg) simp
  then have W0: "0 \<le> W" by (simp add: W_def)
  have "0 \<le> fl (of_int mw / fl r)" using mw a0 by (intro fl_nonneg) simp
  then have "0 \<le> fl (fl (of_int mw / fl r) * (1/2))" by (intro fl_nonneg) simp
  then have H0: "0 \<le> H" by (simp add: H_def)
  have Hle: "H \<le> mh" if "\<not> W \<le> mw"
    unfolding H_def using a0 mw mh that by (intro grid_height_le) (simp_all add: W_def)
  have W1: "1 \<le> W" if "sh \<le> mh * sw"
  proof -
    have "(of_int sh :: rat) \<le> of_int (mh * sw)" using that by (simp only: of_int_le_iff)
    then have "1 \<le> of_int mh * r" using shp by (simp add: r_def pos_le_divide_eq)
    then show ?thesis unfolding W_def using rb(1) mh by (intro grid_width_ge1)
  qed
  have H1: "1 \<le> H" if "4 * sw \<le> mw * sh"
  proof -
    have "(of_int (4 * sw) :: rat) \<le> of_int (mw * sh)" using that by (simp only: of_int_le_iff)
    then have "4 * r \<le> of_int mw" using shp by (simp add: r_def pos_divide_le_eq)
    then show ?thesis unfolding H_def using rb(1) by (intro grid_height_ge1)
  qed
  show ?thesis
  proof (cases "W \<le> mw")
    case True
    then show ?thesis using eq W0 W1 mh by auto
  next
    case False
    then show ?thesis using eq H0 H1 Hle mw by auto
  qed
qed

theorem dims_within_bounds_witness:
  "\<exists>w h. image_to_ascii_dims 200 100 120 40 = Inr (w, h)
      \<and> 0 \<le> w \<and> w \<le> 120 \<and> 0 \<le> h \<and> h \<le> 40 \<and> 1 \<le> w \<and> 1 \<le> h"
  using dims_within_bounds [of 200 100 120 40] by simp

text \<open>
  Claim C1 as stated asks for both numbers to be at least 1. A 16 by 1024 strip in the
  fallback 80 by 24 terminal (bounds 78 by 20) gets width 0, and a 1024 by 16 strip gets
  height 0.
\<close>

theorem dims_not_positive_counterexample:
  "image_to_ascii_dims 16 1024 78 20 = Inr (0, 20) \<and> image_to_ascii_dims 1024 16 78 20 = Inr (78, 0)"
proof
  show "image_to_ascii_dims 16 1024 78 20 = Inr (0, 20)"
    using dims_height_limited [of 16 1024 78 20 "1/64" "5/16" "5/8"]
      fl_dyadic [of "1/64" 1 6] fl_dyadic [of "5/16" 5 4] fl_dyadic [of "5/8" 5 3]
    by (simp add: floor_rat_numeral)
  show "image_to_ascii_dims 1024 16 78 20 = Inr (78, 0)"
    using dims_width_limited [of 1024 16 78 20 64 1280 2560 "39/32" "39/64"]
      fl_int [of 64] fl_int [of 1280] fl_int [of 2560]
      fl_dyadic [of "39/32" 39 5] fl_dyadic [of "39/64" 39 6]
    by (simp add: floor_rat_numeral)
qed

text \<open>
  Claim C3, as the code has it. On positive arguments (below \<open>2 ^ 52\<close>) the code computes
  the two-candidate algorithm in binary floating point, every division and multiplication
  rounded to the nearest float (\<open>fl\<close>): \<open>aspect = fl (sourceWidth / sourceHeight)\<close>,
  \<open>heightLimitedWidth = floor (fl (fl (maxHeight * aspect) * 2))\<close>,
  \<open>widthLimitedHeight = floor (fl (fl (maxWidth / aspect) * 0.5))\<close>, and the result is
  \<open>(heightLimitedWidth, maxHeight)\<close> when \<open>heightLimitedWidth \<le> maxWidth\<close>,
  \<open>(maxWidth, widthLimitedHeight)\<close> otherwise. For a 200 by 100 source with
  \<open>maxWidth = 120\<close> and \<open>maxHeight = 40\<close> the result is (120, 30), as with exact numbers.
\<close>

theorem dims_two_candidates:
  fixes sw sh mw mh :: int
  assumes "0 < sw" "sw < 2 ^ 52" "0 < sh" "sh < 2 ^ 52"
      and "0 < mw" "mw < 2 ^ 52" "0 < mh" "mh < 2 ^ 52"
  shows "image_to_ascii_dims sw sh mw mh =
           Inr (let aspect = fl (of_int sw / of_int sh);
                    heightLimitedWidth = \<lfloor>fl (fl (of_int mh * aspect) * 2)\<rfloor>;
                    widthLimitedHeight = \<lfloor>fl (fl (of_int mw / aspect) * (1/2))\<rfloor>
                in if heightLimitedWidth \<le> mw then (heightLimitedWidth, mh)
                   else (mw, widthLimitedHeight))
       \<and> image_to_ascii_dims 200 100 120 40 = Inr (120, 30)
       \<and> negotiate 200 100 120 40 = (120, 30)"
proof (intro conjI)
  show "image_to_ascii_dims sw sh mw mh =
           Inr (let aspect = fl (of_int sw / of_int sh);
                    heightLimitedWidth = \<lfloor>fl (fl (of_int mh * aspect) * 2)\<rfloor>;
                    widthLimitedHeight = \<lfloor>fl (fl (of_int mw / aspect) * (1/2))\<rfloor>
                in if heightLimitedWidth \<le> mw then (heightLimitedWidth, mh)
                   else (mw, widthLimitedHeight))"
    using dims_eq [OF assms] by (simp only: Let_def)
  show "image_to_ascii_dims 200 100 120 40 = Inr (120, 30)" by (rule dims_200_100)
  show "negotiate 200 100 120 40 = (120, 30)"
    by (simp add: negotiate_def Let_def floor_rat_numeral)
qed

theorem dims_two_candidates_witness:
  "image_to_ascii_dims 200 100 120 40 = Inr (120, 30) \<and> negotiate 200 100 120 40 = (120, 30)"
  using dims_two_candidates [of 200 100 120 40, THEN conjunct2] by simp

lemma fl_60_29: "fl (60 / 29) = 4658896166245341 / 2 ^ 51"
proof -
  have "rhe (60 / 29 / 2 powi (1 - 52)) = 4658896166245341"
    by (simp add: power_int_minus inverse_eq_divide rhe_def Let_def floor_rat_numeral)
  then have "fl (60 / 29) = of_int 4658896166245341 * 2 powi (1 - 52)"
    by (intro fl_eval) (simp_all add: power_int_minus inverse_eq_divide)
  then show ?thesis by (simp add: power_int_minus inverse_eq_divide)
qed

lemma fl_40_aspect: "fl (40 * (4658896166245341 / 2 ^ 51)) = 5823620207806676 / 2 ^ 46"
proof -
  have "rhe (40 * (4658896166245341 / 2 ^ 51) / 2 powi (6 - 52)) = 5823620207806676"
    by (simp add: power_int_minus inverse_eq_divide rhe_def Let_def floor_rat_numeral)
  then have "fl (40 * (4658896166245341 / 2 ^ 51)) = of_int 5823620207806676 * 2 powi (6 - 52)"
    by (intro fl_eval) (simp_all add: power_int_minus inverse_eq_divide)
  then show ?thesis by (simp add: power_int_minus inverse_eq_divide)
qed

lemma fl_120_aspect: "fl (120 / (4658896166245341 / 2 ^ 51)) = 8162774324609023 / 2 ^ 47"
proof -
  have "rhe (120 / (4658896166245341 / 2 ^ 51) / 2 powi (5 - 52)) = 8162774324609023"
    by (simp add: power_int_minus inverse_eq_divide rhe_def Let_def floor_rat_numeral)
  then have "fl (120 / (4658896166245341 / 2 ^ 51)) = of_int 8162774324609023 * 2 powi (5 - 52)"
    by (intro fl_eval) (simp_all add: power_int_minus inverse_eq_divide)
  then show ?thesis by (simp add: power_int_minus inverse_eq_divide)
qed

text \<open>
  Claim C3 as stated gives the two candidates by the formulas themselves. For a 60 by 29
  source with \<open>maxWidth = 120\<close> and \<open>maxHeight = 40\<close> the formulas give
  \<open>floor (120 / (60 / 29) * 0.5) = 29\<close> for the height; the code's quotient \<open>120 / aspect\<close>
  is the float just below 58, and the code returns height 28.
\<close>

theorem dims_exact_formula_counterexample:
  "image_to_ascii_dims 60 29 120 40 = Inr (120, 28) \<and> negotiate 60 29 120 40 = (120, 29)"
proof
  show "image_to_ascii_dims 60 29 120 40 = Inr (120, 28)"
    using dims_width_limited [of 60 29 120 40 "4658896166245341 / 2 ^ 51"
        "5823620207806676 / 2 ^ 46" "5823620207806676 / 2 ^ 45"
        "8162774324609023 / 2 ^ 47" "8162774324609023 / 2 ^ 48"]
      fl_60_29 fl_40_aspect fl_120_aspect
      fl_dyadic [of "5823620207806676 / 2 ^ 45" 5823620207806676 45]
      fl_dyadic [of "8162774324609023 / 2 ^ 48" 8162774324609023 48]
    by (simp add: floor_rat_numeral)
  show "negotiate 60 29 120 40 = (120, 29)"
    by (simp add: negotiate_def Let_def floor_rat_numeral)
qed

text \<open>Likewise for a 1 by 49 source and \<open>maxHeight = 49\<close>: the exact value of
  \<open>maxHeight * aspect * 2\<close> is 2, while the code gets width 1.\<close>

lemma fl_1_49: "fl (1 / 49) = 5882252574524729 / 2 ^ 58"
proof -
  have "rhe (1 / 49 / 2 powi (- 6 - 52)) = 5882252574524729"
    by (simp add: power_int_minus inverse_eq_divide rhe_def Let_def floor_rat_numeral)
  then have "fl (1 / 49) = of_int 5882252574524729 * 2 powi (- 6 - 52)"
    by (intro fl_eval) (simp_all add: power_int_minus inverse_eq_divide)
  then show ?thesis by (simp add: power_int_minus inverse_eq_divide)
qed

lemma fl_49_49: "fl (49 * (5882252574524729 / 2 ^ 58)) = 9007199254740991 / 2 ^ 53"
proof -
  have "rhe (49 * (5882252574524729 / 2 ^ 58) / 2 powi (- 1 - 52)) = 9007199254740991"
    by (simp add: power_int_minus inverse_eq_divide rhe_def Let_def floor_rat_numeral)
  then have "fl (49 * (5882252574524729 / 2 ^ 58)) = of_int 9007199254740991 * 2 powi (- 1 - 52)"
    by (intro fl_eval) (simp_all add: power_int_minus inverse_eq_divide)
  then show ?thesis by (simp add: power_int_minus inverse_eq_divide)
qed

lemma dims_1_49_rounding:
  "image_to_ascii_dims 1 49 80 49 = Inr (1, 49) \<and> negotiate 1 49 80 49 = (2, 49)"
proof
  show "image_to_ascii_dims 1 49 80 49 = Inr (1, 49)"
    using dims_height_limited [of 1 49 80 49 "5882252574524729 / 2 ^ 58" "9007199254740991 / 2 ^ 53"
        "9007199254740991 / 2 ^ 52"]
      fl_1_49 fl_49_49 fl_dyadic [of "9007199254740991 / 2 ^ 52" 9007199254740991 52]
    by (simp add: floor_rat_numeral)
  show "negotiate 1 49 80 49 = (2, 49)"
    by (simp add: negotiate_def Let_def)
qed

text \<open>
  Claim C7, as the code has it. With \<open>sourceHeight = 0\<close> the first statement of the
  computation divides by zero: ZeroDivisionError is raised, whatever the other arguments
  are, and \<open>image_to_ascii\<close> lets it through. The code has no error of its own for this.
\<close>

theorem zero_height_raises_zero_division:
  "image_to_ascii_dims sw 0 mw mh = Inl ZeroDivisionError
     \<and> image_to_ascii resize_L (img\<lparr>height := 0\<rparr>) mw mh = Inl ZeroDivisionError"
  by (simp add: image_to_ascii_dims_def image_to_ascii_def int_truediv_def and_then_def)

text \<open>Claim C7 as stated asks for an error other than the division by zero; at a 200 by 0
  source the division is performed and raises.\<close>

theorem zero_height_counterexample:
  "int_truediv 200 0 = Inl ZeroDivisionError
     \<and> image_to_ascii_dims 200 0 120 40 = Inl ZeroDivisionError"
  by (simp add: image_to_ascii_dims_def int_truediv_def and_then_def)

subsection \<open>Rasterizing and frame extraction\<close>

lemma and_then_Inr [simp]: "and_then (Inr v) f = f v"
  by (simp add: and_then_def)

lemma and_then_Inl [simp]: "and_then (Inl e) f = Inl e"
  by (simp add: and_then_def)

lemma map_err_const:
  assumes "\<And>x. x \<in> set xs \<Longrightarrow> f x = Inr c"
  shows "map_err f xs = Inr (replicate (length xs) c)"
  using assms by (induction xs) simp_all

lemma set_py_range: "set (py_range n) = {i. 0 \<le> i \<and> i < n}"
proof -
  have "i \<in> int ` {0..<nat n} \<longleftrightarrow> 0 \<le> i \<and> i < n" for i
  proof
    assume "i \<in> int ` {0..<nat n}"
    then show "0 \<le> i \<and> i < n" by auto
  next
    assume "0 \<le> i \<and> i < n"
    then have "nat i \<in> {0..<nat n}" and "i = int (nat i)" by simp_all
    then show "i \<in> int ` {0..<nat n}" by (rule rev_image_eqI)
  qed
  then show ?thesis by (auto simp: py_range_def)
qed

lemma length_py_range: "length (py_range n) = nat n"
  by (simp add: py_range_def)

lemma pixel_char_white: "pixel_char 255 = Inr (CHR '' '')"
  by (simp add: pixel_char_def char_index_eq py_getitem_def ascii_chars_def)

lemma pixel_char_black: "pixel_char 0 = Inr (CHR ''@'')"
  by (simp add: pixel_char_def char_index_eq py_getitem_def ascii_chars_def)

lemma uniform_rows:
  assumes dims: "image_to_ascii_dims (width img) (height img) max_width max_height = Inr (w, h)"
      and resized: "resize_L img w h = Inr getpixel"
      and uniform: "\<forall>x y. 0 \<le> x \<and> x < w \<and> 0 \<le> y \<and> y < h \<longrightarrow> getpixel x y = v"
      and pc: "pixel_char v = Inr c"
  shows "image_to_ascii resize_L img max_width max_height =
           Inr (join [CHR 0x0A] (replicate (nat h) (replicate (nat w) c)))"
proof -
  have row: "map_err (\<lambda>x. pixel_char (getpixel x y)) (py_range w) = Inr (replicate (nat w) c)"
    if "y \<in> set (py_range h)" for y
  proof -
    have "pixel_char (getpixel x y) = Inr c" if "x \<in> set (py_range w)" for x
      using uniform that \<open>y \<in> set (py_range h)\<close> pc by (simp add: set_py_range)
    then have "map_err (\<lambda>x. pixel_char (getpixel x y)) (py_range w)
                 = Inr (replicate (length (py_range w)) c)"
      by (rule map_err_const)
    then show ?thesis by (simp only: length_py_range)
  qed
  then have "map_err (\<lambda>y. map_err (\<lambda>x. pixel_char (getpixel x y)) (py_range w)) (py_range h)
          = Inr (replicate (length (py_range h)) (replicate (nat w) c))"
    by (rule map_err_const)
  then have "map_err (\<lambda>y. map_err (\<lambda>x. pixel_char (getpixel x y)) (py_range w)) (py_range h)
          = Inr (replicate (nat h) (replicate (nat w) c))"
    by (simp only: length_py_range)
  then show ?thesis
    by (simp add: image_to_ascii_def dims resized)
qed

text \<open>For a square source the aspect ratio is exactly 1 and the grid is
  \<open>(2 * maxHeight, maxHeight)\<close> when that fits, \<open>(maxWidth, maxWidth div 2)\<close> otherwise.\<close>

lemma dims_square:
  fixes n mw mh :: int
  assumes n: "0 < n" "n < 2 ^ 52" and mw: "0 < mw" "mw < 2 ^ 52" and mh: "0 < mh" "mh < 2 ^ 52"
  shows "image_to_ascii_dims n n mw mh =
           Inr (if 2 * mh \<le> mw then (2 * mh, mh) else (mw, mw div 2))"
proof -
  have a: "fl (of_int n / of_int n) = 1" using n fl_int [of 1] by simp
  have P: "fl (of_int mh * 1) = of_int mh" using mh fl_int [of mh] by simp
  have T: "fl (of_int mh * 2) = of_int (2 * mh)"
    using mh fl_int [of "2 * mh"] by (simp add: mult.commute)
  have Q: "fl (of_int mw / 1) = of_int mw" using mw fl_int [of mw] by simp
  have H: "fl (of_int mw * (1/2)) = of_int mw / 2" using mw fl_half_int [of mw] by simp
  have fH: "\<lfloor>(of_int mw :: rat) / 2\<rfloor> = mw div 2"
    using floor_divide_of_int_eq [of mw 2, where ?'a = rat] by simp
  show ?thesis
  proof (cases "2 * mh \<le> mw")
    case True
    then have "\<lfloor>of_int (2 * mh) :: rat\<rfloor> \<le> mw" by (simp only: floor_of_int)
    then have "image_to_ascii_dims n n mw mh = Inr (\<lfloor>of_int (2 * mh) :: rat\<rfloor>, mh)"
      by (rule dims_height_limited [OF n n mw mh a P T])
    then show ?thesis using True by (simp only: floor_of_int if_True)
  next
    case False
    then have "mw < \<lfloor>of_int (2 * mh) :: rat\<rfloor>" by (simp only: floor_of_int not_le)
    then have "image_to_ascii_dims n n mw mh = Inr (mw, \<lfloor>(of_int mw :: rat) / 2\<rfloor>)"
      by (rule dims_width_limited [OF n n mw mh a P T _ Q H])
    then show ?thesis using False by (simp only: fH if_False)
  qed
qed

lemma join_replicate: "join sep (replicate (Suc n) r) = r @ concat (replicate n (sep @ r))"
  by (induction n) simp_all

text \<open>
  Claim C8, as the code has it. For an \<open>N\<close> by \<open>N\<close> source and \<open>maxWidth \<ge> 2\<close> the grid
  \<open>(w, h)\<close> is \<open>(2 * maxHeight, maxHeight)\<close> or \<open>(maxWidth, maxWidth div 2)\<close>, with
  \<open>w \<ge> 1\<close> and \<open>h \<ge> 1\<close>. When Pillow, for every size with both components at least 1,
  turns the source into a grayscale frame that is uniformly 255 (as for a uniformly white
  source), the text frame is \<open>h\<close> rows of \<open>w\<close> spaces, the lightest glyph, each row after
  the first preceded by a line feed; when uniformly 0, the same with \<^verbatim>\<open>@\<close>, the densest
  glyph.
\<close>

theorem uniform_frame_glyphs:
  fixes n max_width max_height w h v :: int
  assumes square: "width img = n" "height img = n"
      and n: "0 < n" "n < 2 ^ 52"
      and mw: "2 \<le> max_width" "max_width < 2 ^ 52"
      and mh: "0 < max_height" "max_height < 2 ^ 52"
      and grid: "(w, h) = (if 2 * max_height \<le> max_width then (2 * max_height, max_height)
                          else (max_width, max_width div 2))"
      and pillow: "\<forall>w' h'. 1 \<le> w' \<and> 1 \<le> h' \<longrightarrow>
                     (\<exists>getpixel. resize_L img w' h' = Inr getpixel
                        \<and> (\<forall>x y. 0 \<le> x \<and> x < w' \<and> 0 \<le> y \<and> y < h' \<longrightarrow> getpixel x y = v))"
      and v: "v = 255 \<or> v = 0"
  shows "1 \<le> w \<and> 1 \<le> h
       \<and> image_to_ascii resize_L img max_width max_height =
           Inr (replicate (nat w) (if v = 255 then CHR '' '' else CHR ''@'')
                @ concat (replicate (nat h - 1)
                    (CHR 0x0A # replicate (nat w) (if v = 255 then CHR '' '' else CHR ''@''))))"
proof -
  define c where "c = (if v = 255 then CHR '' '' else CHR ''@'')"
  have w: "1 \<le> w" and h: "1 \<le> h"
    using grid mw mh by (auto split: if_splits)
  from pillow w h obtain getpixel where resized: "resize_L img w h = Inr getpixel"
    and uniform: "\<forall>x y. 0 \<le> x \<and> x < w \<and> 0 \<le> y \<and> y < h \<longrightarrow> getpixel x y = v"
    by blast
  have mw0: "0 < max_width" using mw by simp
  have dims: "image_to_ascii_dims (width img) (height img) max_width max_height = Inr (w, h)"
    using dims_square [OF n mw0 mw(2) mh] square grid by simp
  have pc: "pixel_char v = Inr c"
    using v pixel_char_white pixel_char_black by (auto simp: c_def)
  have "image_to_ascii resize_L img max_width max_height =
          Inr (join [CHR 0x0A] (replicate (nat h) (replicate (nat w) c)))"
    using dims resized uniform pc by (rule uniform_rows)
  moreover have "nat h = Suc (nat h - 1)" using h by simp
  ultimately have "image_to_ascii resize_L img max_width max_height =
          Inr (replicate (nat w) c @ concat (replicate (nat h - 1) ([CHR 0x0A] @ replicate (nat w) c)))"
    using join_replicate [of "[CHR 0x0A]" "nat h - 1" "replicate (nat w) c"] by simp
  then show ?thesis using w h by (simp add: c_def)
qed

theorem uniform_frame_glyphs_witness:
  "image_to_ascii (pillow_uniform 255) \<lparr>width = 4, height = 4, bitmap = ()\<rparr> 6 2
     = Inr (''    '' @ [CHR 0x0A] @ ''    '')
   \<and> image_to_ascii (pillow_uniform 0) \<lparr>width = 4, height = 4, bitmap = ()\<rparr> 6 2
     = Inr (''@@@@'' @ [CHR 0x0A] @ ''@@@@'')"
  using uniform_frame_glyphs [of "\<lparr>width = 4, height = 4, bitmap = ()\<rparr>" 4 6 2 4 2
          "pillow_uniform 255" 255]
        uniform_frame_glyphs [of "\<lparr>width = 4, height = 4, bitmap = ()\<rparr>" 4 6 2 4 2
          "pillow_uniform 0" 0]
  by (simp add: pillow_uniform_def eval_nat_numeral)

text \<open>
  Claim C8 as stated covers every bound. With \<open>maxWidth = 1\<close> the grid of a square source
  is 1 by 0: there is no row and no glyph, and Pillow's \<^verbatim>\<open>resize\<close> refuses the size, so
  that no text frame is produced at all.
\<close>

theorem uniform_frame_counterexample:
  "image_to_ascii_dims 4 4 1 24 = Inr (1, 0)
   \<and> image_to_ascii (pillow_uniform 255) \<lparr>width = 4, height = 4, bitmap = ()\<rparr> 1 24
       = Inl ValueError"
proof -
  have d: "image_to_ascii_dims 4 4 1 24 = Inr (1, 0)"
    using dims_square [of 4 1 24] by simp
  then show ?thesis by (simp add: image_to_ascii_def pillow_uniform_def)
qed

lemma fl_1_10: "fl (1 / 10) = 3602879701896397 / 2 ^ 55"
proof -
  have "rhe (1 / 10 / 2 powi (- 4 - 52)) = 7205759403792794"
    by (simp add: power_int_minus inverse_eq_divide rhe_def Let_def floor_rat_numeral)
  then have "fl (1 / 10) = of_int 7205759403792794 * 2 powi (- 4 - 52)"
    by (intro fl_eval) (simp_all add: power_int_minus inverse_eq_divide)
  then show ?thesis by (simp add: power_int_minus inverse_eq_divide)
qed

lemma frame_duration_default: "frame_duration None = Inr (to_double (1 / 10))"
  using int_to_float_exact [of 100] by (simp add: frame_duration_def)

lemma frame_duration_Some:
  "0 \<le> d \<Longrightarrow> d < 2 ^ 52 \<Longrightarrow> frame_duration (Some d) = Inr (to_double (of_int d / 1000))"
  using int_to_float_exact [of d] by (simp add: frame_duration_def)

lemma extract_loop_result:
  assumes "extract_loop raw fs ds = Inr (frames, durations)"
  shows "frames = fs @ map fst raw \<and> length durations = length ds + length raw
       \<and> take (length ds) durations = ds
       \<and> (\<forall>i<length raw. snd (raw ! i) = None \<longrightarrow> durations ! (length ds + i) = to_double (1 / 10))"
  using assms
proof (induction raw arbitrary: fs ds)
  case Nil
  then show ?case by simp
next
  case (Cons p raw)
  obtain f d where p: "p = (f, d)" by (cases p)
  from Cons.prems obtain s where s: "frame_duration d = Inr s"
    and rec: "extract_loop raw (fs @ [f]) (ds @ [s]) = Inr (frames, durations)"
    by (cases "frame_duration d") (simp_all add: p)
  note ih = Cons.IH [OF rec]
  have len: "length durations = length ds + length (p # raw)" using ih by simp
  have tk: "take (length ds + 1) durations = ds @ [s]" using ih by simp
  then have "take (length ds) (take (length ds + 1) durations) = ds" by simp
  then have tk': "take (length ds) durations = ds" by (simp add: min_def)
  have at: "durations ! length ds = s"
  proof -
    have "durations ! length ds = take (length ds + 1) durations ! length ds" by simp
    then show ?thesis by (simp only: tk nth_append_length)
  qed
  have "durations ! (length ds + i) = to_double (1 / 10)"
    if "i < length (p # raw)" and "snd ((p # raw) ! i) = None" for i
  proof (cases i)
    case 0
    then have "d = None" using that p by simp
    then show ?thesis using s at 0 frame_duration_default by simp
  next
    case (Suc j)
    then have "j < length raw" and "snd (raw ! j) = None" using that by simp_all
    then have "durations ! (length (ds @ [s]) + j) = to_double (1 / 10)" using ih by blast
    then show ?thesis using Suc by simp
  qed
  then show ?case using ih len tk' by (simp add: p)
qed

lemma extract_loop_total:
  assumes "\<forall>p \<in> set raw. case snd p of None \<Rightarrow> True | Some d \<Rightarrow> 0 \<le> d \<and> d < 2 ^ 52"
  shows "\<exists>r. extract_loop raw fs ds = Inr r"
  using assms
proof (induction raw arbitrary: fs ds)
  case Nil
  then show ?case by simp
next
  case (Cons p raw)
  obtain f d where p: "p = (f, d)" by (cases p)
  have "\<exists>s. frame_duration d = Inr s"
    using Cons.prems p frame_duration_default frame_duration_Some by (cases d) auto
  then show ?case using Cons p by auto
qed

text \<open>
  Claim C9. Whenever frame extraction returns, the frame and duration sequences are
  equally long, one entry for each decoded frame in order, and a frame without a source
  duration gets 100 ms, that is the float 0.1 after the division by 1000.0. It does
  return when every duration that is present is a non-negative integer below \<open>2 ^ 52\<close>.
\<close>

theorem extract_gif_frames_lengths:
  "(extract_gif_frames (Some raw) = (evs, Inr (frames, durations)) \<longrightarrow>
      length durations = length frames \<and> length frames = length raw
      \<and> frames = map fst raw
      \<and> (\<forall>i<length raw. snd (raw ! i) = None \<longrightarrow> durations ! i = to_double (1 / 10)))
   \<and> to_double (1 / 10) = Fin (3602879701896397 / 2 ^ 55)
   \<and> ((\<forall>p \<in> set raw. case snd p of None \<Rightarrow> True | Some d \<Rightarrow> 0 \<le> d \<and> d < 2 ^ 52) \<longrightarrow>
        (\<exists>r. extract_gif_frames (Some raw) = ([], Inr r)))"
proof (intro conjI impI)
  assume "extract_gif_frames (Some raw) = (evs, Inr (frames, durations))"
  then have "extract_loop raw [] [] = Inr (frames, durations)"
    by (simp add: extract_gif_frames_def split: sum.splits)
  from extract_loop_result [OF this] have r:
    "frames = map fst raw \<and> length durations = length raw
       \<and> (\<forall>i<length raw. snd (raw ! i) = None \<longrightarrow> durations ! i = to_double (1 / 10))"
    by simp
  from r show "length durations = length frames" by simp
  from r show "length frames = length raw" by simp
  from r show "frames = map fst raw" by simp
  from r show "\<forall>i<length raw. snd (raw ! i) = None \<longrightarrow> durations ! i = to_double (1 / 10)"
    by simp
next
  show "to_double (1 / 10) = Fin (3602879701896397 / 2 ^ 55)"
    by (simp add: to_double_def fl_1_10)
next
  assume "\<forall>p \<in> set raw. case snd p of None \<Rightarrow> True | Some d \<Rightarrow> 0 \<le> d \<and> d < 2 ^ 52"
  then obtain r where "extract_loop raw [] [] = Inr r"
    using extract_loop_total [of raw "[]" "[]"] by blast
  then show "\<exists>r. extract_gif_frames (Some raw) = ([], Inr r)"
    by (simp add: extract_gif_frames_def)
qed

theorem extract_gif_frames_lengths_witness:
  "extract_gif_frames (Some [(\<lparr>width = 2, height = 1, bitmap = ()\<rparr>, None),
                             (\<lparr>width = 2, height = 1, bitmap = ()\<rparr>, Some 50)])
     = ([], Inr ([\<lparr>width = 2, height = 1, bitmap = ()\<rparr>, \<lparr>width = 2, height = 1, bitmap = ()\<rparr>],
                 [to_double (1 / 10), to_double (1 / 20)]))
   \<and> length [to_double (1 / 10), to_double (1 / 20)] = (2::nat)
   \<and> to_double (1 / 10) = Fin (3602879701896397 / 2 ^ 55)"
proof -
  let ?raw = "[(\<lparr>width = 2, height = 1, bitmap = ()\<rparr>, None),
               (\<lparr>width = 2, height = 1, bitmap = ()\<rparr>, Some (50::int))]"
  have e: "extract_gif_frames (Some ?raw)
     = ([], Inr ([\<lparr>width = 2, height = 1, bitmap = ()\<rparr>, \<lparr>width = 2, height = 1, bitmap = ()\<rparr>],
                 [to_double (1 / 10), to_double (1 / 20)]))"
    using frame_duration_Some [of 50]
    by (simp add: extract_gif_frames_def frame_duration_default)
  show ?thesis
    using e extract_gif_frames_lengths [of ?raw "[]"
        "[\<lparr>width = 2, height = 1, bitmap = ()\<rparr>, \<lparr>width = 2, height = 1, bitmap = ()\<rparr>]"
        "[to_double (1 / 10), to_double (1 / 20)]"]
    by simp
qed

subsection \<open>The playback loop\<close>


























subsection \<open>The command line and the exit codes\<close>





lemma main_not_found: "\<not> path_exists env \<Longrightarrow> main args env = Exit [Print_error_not_found] 1"
  by (simp add: main_def)

lemma main_negative_width:
  assumes "path_exists env" and "args_width args = Some w" and "w < 0"
  shows "\<exists>evs. main args env = Exit evs 1"
  using assms by (simp add: main_def truthy_def split: prod.splits)

lemma extract_gif_frames_exit: "extract_gif_frames opn = (evs, Inl code) \<Longrightarrow> code = 1"
  by (auto simp: extract_gif_frames_def split: option.splits sum.splits)

lemma main_decode_failure:
  assumes "path_exists env" and "opened env = None" and "args_width args = None \<or> 0 < the (args_width args)"
  shows "\<exists>evs. main args env = Exit evs 1"
  using assms
  by (auto simp: main_def load_gif_def extract_gif_frames_def truthy_def Let_def
           split: prod.splits option.splits)

lemma main_exit_code: "main args env = Exit evs code \<Longrightarrow> code = 1"
  by (auto simp: main_def load_gif_def Let_def
           split: if_splits prod.splits sum.splits dest: extract_gif_frames_exit)

lemma lower_gif: "endswith (lower ''Clip.GIF'') [''.gif'', ''.png'', ''.jpg'', ''.jpeg'']"
  by (simp add: lower_def endswith_def)

lemma lower_webp: "\<not> endswith (lower ''clip.webp'') [''.gif'', ''.png'', ''.jpg'', ''.jpeg'']"
  by (simp add: lower_def endswith_def)


text \<open>Ctrl+C inside the \<^verbatim>\<open>try\<close> block: one stopped message, the last thing written, and
  exit code 0, wherever in the loop it arrives. Ctrl+C before the \<^verbatim>\<open>try\<close> block is not
  caught. Nothing else makes \<open>play_ascii_animation\<close> exit with a code.\<close>

lemma convert_frames_no_stop: "Print_stopped \<notin> set (fst (convert_frames r mw mh t i fs))"
proof (induction fs arbitrary: i)
  case Nil
  then show ?case by simp
next
  case (Cons f fs)
  show ?case
    using Cons [of "i + 1"] by (auto split: sum.splits prod.splits)
qed

lemma run_pass_no_stop: "Print_stopped \<notin> set (fst (run_pass ts speed fc ps))"
proof (induction ps arbitrary: fc)
  case Nil
  then show ?case by simp
next
  case (Cons p ps)
  obtain evs r where r: "run_pass ts speed (fc + 1) ps = (evs, r)"
    by (cases "run_pass ts speed (fc + 1) ps")
  with Cons [of "fc + 1"] have "Print_stopped \<notin> set evs" by simp
  then show ?case using r by (auto simp add: show_frame_def split: option.splits)
qed

lemma run_loop_no_stop: "Print_stopped \<notin> set (fst (run_loop n ts speed fc pairs))"
proof (induction n arbitrary: fc)
  case 0
  then show ?case by simp
next
  case (Suc n)
  obtain evs r where p: "run_pass ts speed fc pairs = (evs, r)"
    by (cases "run_pass ts speed fc pairs")
  with run_pass_no_stop [of ts speed fc pairs] have evs: "Print_stopped \<notin> set evs" by simp
  show ?case
  proof (cases r)
    case (Inl e)
    with p evs show ?thesis by simp
  next
    case (Inr fc')
    obtain evs' r' where l: "run_loop n ts speed fc' pairs = (evs', r')"
      by (cases "run_loop n ts speed fc' pairs")
    with Suc [of fc'] have "Print_stopped \<notin> set evs'" by simp
    with p evs Inr l show ?thesis by simp
  qed
qed

lemma try_block_exit:
  assumes "try_block ts speed pairs ctrl_c n = (evs, Some (Exited code))"
  shows "code = 0 \<and> Print_stopped \<notin> set (butlast evs) \<and> evs \<noteq> [] \<and> last evs = Print_stopped
       \<and> (\<exists>k. ctrl_c = In_try k)"
proof -
  from assms obtain k where k: "ctrl_c = In_try k"
    by (cases ctrl_c) (auto simp: try_block_def split: prod.splits sum.splits)
  obtain lv r where lp: "run_loop k ts speed 0 pairs = (lv, r)"
    by (cases "run_loop k ts speed 0 pairs")
  have ns: "Print_stopped \<notin> set lv"
    using run_loop_no_stop [of k ts speed 0 pairs] lp by simp
  then have "Print_stopped \<notin> set (take k lv)" by (auto dest: in_set_takeD)
  with assms k lp ns show ?thesis
    by (auto simp: try_block_def split: if_splits sum.splits)
qed

lemma try_block_interrupted:
  assumes "k \<le> length (fst (run_loop k ts speed 0 pairs))"
  shows "try_block ts speed pairs (In_try k) n
           = (take k (fst (run_loop k ts speed 0 pairs)) @ [Print_stopped], Some (Exited 0))"
  using assms by (cases "run_loop k ts speed 0 pairs") (simp add: try_block_def)

lemma play_interrupted:
  assumes "play_ascii_animation r ts frames durations mw mh speed ctrl_c n = (evs, Some (Exited code))"
  shows "code = 0 \<and> count_list evs Print_stopped = 1 \<and> last evs = Print_stopped
       \<and> (\<exists>k. ctrl_c = In_try k)"
proof -
  obtain cv res where c: "convert_frames r mw mh (length frames) 0 frames = (cv, res)"
    by (cases "convert_frames r mw mh (length frames) 0 frames")
  from assms c obtain ascii_frames where res: "res = Inr ascii_frames"
    by (cases res)
       (auto simp: play_ascii_animation_def raise_unless_interrupted_def
             split: interrupt.splits if_splits)
  define before where "before = Print_converting # cv @ [Print_starting, Sleep (Fin 1)]"
  from assms c res have s1: "ts (Fin 1) = None"
    by (cases "ts (Fin 1)")
       (auto simp: play_ascii_animation_def raise_unless_interrupted_def Let_def
             split: interrupt.splits if_splits)
  from assms c res s1 obtain lv where
    tb: "try_block ts speed (zip ascii_frames durations) ctrl_c n = (lv, Some (Exited code))"
    and evs: "evs = before @ lv"
    by (cases ctrl_c)
       (auto simp: play_ascii_animation_def Let_def before_def split: prod.splits)
  note e = try_block_exit [OF tb]
  have "Print_stopped \<notin> set cv"
    using convert_frames_no_stop [of r mw mh "length frames" 0 frames] c by simp
  then have 1: "count_list before Print_stopped = 0"
    by (simp add: count_list_0_iff before_def)
  from e have lv: "lv = butlast lv @ [Print_stopped]"
    by (metis append_butlast_last_id)
  from e have "count_list (butlast lv) Print_stopped = 0" by (simp add: count_list_0_iff)
  then have 2: "count_list lv Print_stopped = 1"
    by (subst lv) simp
  show ?thesis using e 1 2 by (simp add: evs)
qed

lemma play_interrupted_before_try:
  "\<exists>evs e. play_ascii_animation r ts frames durations mw mh speed (Before_try k) n
              = (evs, Some (Uncaught e))"
  by (auto simp: play_ascii_animation_def raise_unless_interrupted_def Let_def
           split: prod.splits sum.splits option.splits)

text \<open>
  Claim C6 at the input where the code departs from it: an explicit width of 0. The test
  \<^verbatim>\<open>if args.width:\<close> is false for 0, so the check \<^verbatim>\<open>args.width <= 0\<close> under it, which would
  print the error and exit with 1, is never reached; the program goes on with the default
  width as if no width had been given, and plays.
\<close>

theorem main_width_zero_accepted:
  "main (Args ''anim.gif'' (Some 0) (Fin (1/2)))
        \<lparr>path_exists = True, terminal = Some (80, 24),
         opened = Some [(\<lparr>width = 200, height = 100, bitmap = ()\<rparr>, Some 100)]\<rparr>
     = Play [Print_loading, Print_terminal_size 80 24, Print_max_dimensions 78 20, Print_found 1]
         [\<lparr>width = 200, height = 100, bitmap = ()\<rparr>] [to_double (1 / 10)] 78 20 (Fin (1/2))
   \<and> main (Args ''anim.gif'' (Some (- 1)) (Fin (1/2)))
        \<lparr>path_exists = True, terminal = Some (80, 24),
         opened = Some [(\<lparr>width = 200, height = 100, bitmap = ()\<rparr>, Some 100)]\<rparr>
     = Exit [Print_error_width] 1"
  using frame_duration_Some [of 100]
  by (simp add: main_def load_gif_def extract_gif_frames_def truthy_def get_terminal_size_def
        lower_def endswith_def Let_def)




end
